theory Spec2Isabelle
  imports Main "HOL-Library.Sublist"
begin

section \<open>Go strings and the functions of package \<^verbatim>\<open>strings\<close> that tago.go calls\<close>

text \<open>
  A Go string is a sequence of bytes, so it is a \<^typ>\<open>string\<close> here (a list of 8-bit
  characters). The separators \<^verbatim>\<open>"="\<close> and \<^verbatim>\<open>";"\<close> the program splits on are single
  bytes and are passed as a \<^typ>\<open>char\<close>.

  \<^verbatim>\<open>strings.TrimSpace\<close> removes leading and trailing white space as defined by Unicode.
  On the bytes of a string these are the UTF-8 encodings of the code points that
  \<^verbatim>\<open>unicode.IsSpace\<close> accepts: U+0009..U+000D, U+0020, U+0085, U+00A0, U+1680,
  U+2000..U+200A, U+2028, U+2029, U+202F, U+205F and U+3000. A byte sequence decodes to one
  of them (from the front as from the back) exactly when it is one of these encodings.
\<close>

definition whiteSpace :: "string list" where
  "whiteSpace =
     [[CHR 0x09], [CHR 0x0A], [CHR 0x0B], [CHR 0x0C], [CHR 0x0D], [CHR 0x20],
      [CHR 0xC2, CHR 0x85], [CHR 0xC2, CHR 0xA0],
      [CHR 0xE1, CHR 0x9A, CHR 0x80],
      [CHR 0xE2, CHR 0x80, CHR 0x80], [CHR 0xE2, CHR 0x80, CHR 0x81],
      [CHR 0xE2, CHR 0x80, CHR 0x82], [CHR 0xE2, CHR 0x80, CHR 0x83],
      [CHR 0xE2, CHR 0x80, CHR 0x84], [CHR 0xE2, CHR 0x80, CHR 0x85],
      [CHR 0xE2, CHR 0x80, CHR 0x86], [CHR 0xE2, CHR 0x80, CHR 0x87],
      [CHR 0xE2, CHR 0x80, CHR 0x88], [CHR 0xE2, CHR 0x80, CHR 0x89],
      [CHR 0xE2, CHR 0x80, CHR 0x8A],
      [CHR 0xE2, CHR 0x80, CHR 0xA8], [CHR 0xE2, CHR 0x80, CHR 0xA9],
      [CHR 0xE2, CHR 0x80, CHR 0xAF],
      [CHR 0xE2, CHR 0x81, CHR 0x9F],
      [CHR 0xE3, CHR 0x80, CHR 0x80]]"

text \<open>The white-space rune a string starts with, and the one it ends with, if any.\<close>

definition leadingSpace :: "string \<Rightarrow> string option" where
  "leadingSpace s = find (\<lambda>e. prefix e s) whiteSpace"

definition trailingSpace :: "string \<Rightarrow> string option" where
  "trailingSpace s = find (\<lambda>e. suffix e s) whiteSpace"

text \<open>\<^verbatim>\<open>TrimLeftFunc(s, unicode.IsSpace)\<close>: drop white-space runes from the front.\<close>

function trimLeftSpace :: "string \<Rightarrow> string" where
  "trimLeftSpace s =
     (case leadingSpace s of
        None \<Rightarrow> s
      | Some e \<Rightarrow> trimLeftSpace (drop (length e) s))"
  by pat_completeness auto
termination
proof (relation "measure length")
  fix s e
  assume "leadingSpace s = Some e"
  then have "e \<in> set whiteSpace" and "prefix e s"
    by (auto simp: leadingSpace_def find_Some_iff in_set_conv_nth)
  then have "e \<noteq> []" and "length e \<le> length s"
    by (auto simp: whiteSpace_def prefix_length_le)
  then show "(drop (length e) s, s) \<in> measure length"
    by (cases e) auto
qed simp

text \<open>\<^verbatim>\<open>TrimRightFunc(s, unicode.IsSpace)\<close>: drop white-space runes from the back.\<close>

function trimRightSpace :: "string \<Rightarrow> string" where
  "trimRightSpace s =
     (case trailingSpace s of
        None \<Rightarrow> s
      | Some e \<Rightarrow> trimRightSpace (take (length s - length e) s))"
  by pat_completeness auto
termination
proof (relation "measure length")
  fix s e
  assume "trailingSpace s = Some e"
  then have "e \<in> set whiteSpace" and "suffix e s"
    by (auto simp: trailingSpace_def find_Some_iff in_set_conv_nth)
  then have "e \<noteq> []" and "length e \<le> length s"
    by (auto simp: whiteSpace_def suffix_length_le)
  then show "(take (length s - length e) s, s) \<in> measure length"
    by (cases e) auto
qed simp

declare trimLeftSpace.simps [simp del] trimRightSpace.simps [simp del]

definition TrimSpace :: "string \<Rightarrow> string" where
  "TrimSpace s = trimRightSpace (trimLeftSpace s)"

text \<open>
  \<^verbatim>\<open>strings.genSplit(s, sep, 0, n)\<close> for a one-byte separator: \<open>n = 0\<close> gives no
  substring, \<open>n < 0\<close> all of them (\<open>n\<close> becomes the count of separators plus one),
  \<open>n > 0\<close> at most \<open>n\<close>, the last one being the unsplit remainder; \<open>n\<close> is capped
  at the length of the string plus one. Its loop, \<open>cut\<close>, cuts at the first separator
  at most \<open>n - 1\<close> times.
\<close>

definition Count :: "string \<Rightarrow> char \<Rightarrow> nat" where
  "Count s sep = length (filter (\<lambda>c. c = sep) s)"

fun cut :: "string \<Rightarrow> char \<Rightarrow> nat \<Rightarrow> string list" where
  "cut s sep 0 = [s]"
| "cut s sep (Suc n) =
     (if sep \<in> set s
      then takeWhile (\<lambda>c. c \<noteq> sep) s # cut (tl (dropWhile (\<lambda>c. c \<noteq> sep) s)) sep n
      else [s])"

definition genSplit :: "string \<Rightarrow> char \<Rightarrow> int \<Rightarrow> string list" where
  "genSplit s sep n =
     (if n = 0 then []
      else let n1 = (if n < 0 then int (Count s sep) + 1 else n);
               n2 = (if n1 > int (length s) + 1 then int (length s) + 1 else n1)
           in cut s sep (nat (n2 - 1)))"

definition SplitN :: "string \<Rightarrow> char \<Rightarrow> int \<Rightarrow> string list" where
  "SplitN s sep n = genSplit s sep n"

text \<open>
  \<^verbatim>\<open>strings.SplitSeq(s, sep)\<close> yields, in order, the strings \<^verbatim>\<open>strings.Split(s, sep)\<close>
  returns; the list is the sequence of values the \<^verbatim>\<open>range\<close> loop sees.
\<close>

definition SplitSeq :: "string \<Rightarrow> char \<Rightarrow> string list" where
  "SplitSeq s sep = genSplit s sep (- 1)"

fun Join :: "string list \<Rightarrow> string \<Rightarrow> string" where
  "Join [] sep = []"
| "Join [x] sep = x"
| "Join (x # y # ys) sep = x @ sep @ Join (y # ys) sep"

section \<open>The instruction model (tago.go, lines 19 to 66)\<close>

datatype panic =
    IndexOutOfRange
  | NilDereference
  | NumFieldOfNonStruct
  | ElemOfInvalidType

record TaGo =
  Name :: string

type_synonym Instruction = string

type_synonym FieldName = string

type_synonym Instructions = "Instruction \<rightharpoonup> FieldName list"

text \<open>
  \<^verbatim>\<open>Key\<close> reads \<^verbatim>\<open>parts[0]\<close>, which panics on an empty slice; the panic is a branch
  here, and \<^verbatim>\<open>Value\<close> reads \<^verbatim>\<open>parts[1]\<close> only under its length test.
\<close>

definition Key :: "Instruction \<Rightarrow> panic + string" where
  "Key i =
     (let parts = SplitN i (CHR ''='') 2
      in case parts of [] \<Rightarrow> Inl IndexOutOfRange | p # _ \<Rightarrow> Inr (TrimSpace p))"

definition Value :: "Instruction \<Rightarrow> string" where
  "Value i =
     (let parts = SplitN i (CHR ''='') 2
      in if length parts > 1 then TrimSpace (parts ! 1) else ''true'')"

definition AddPrefix :: "FieldName \<Rightarrow> string \<Rightarrow> FieldName" where
  "AddPrefix f pfx = pfx @ f"

text \<open>
  \<^verbatim>\<open>concat\<close> ranges over the keys of \<open>other\<close> in an unspecified order; each key only
  touches its own entry of the receiver, so the result is the same for every order: the
  entry of a key of \<open>other\<close> is the old list (a new empty one when the key is missing)
  followed by the prefixed values.
\<close>

definition concat_tags :: "Instructions \<Rightarrow> Instructions \<Rightarrow> string \<Rightarrow> Instructions" where
  "concat_tags t other pfx =
     (\<lambda>key. case other key of
              None \<Rightarrow> t key
            | Some values \<Rightarrow>
                Some ((case t key of None \<Rightarrow> [] | Some old \<Rightarrow> old)
                      @ map (\<lambda>v. AddPrefix v pfx) values))"

section \<open>The tag parser (tago.go, lines 71 to 109)\<close>

text \<open>
  A \<^verbatim>\<open>reflect.Type\<close> is a reference to a run-time type descriptor, and two types are
  identical exactly when they are the same descriptor: \<open>Type\<close> is that identity.
\<close>

type_synonym Type = nat

text \<open>
  A struct tag holds, by convention, a list of \<^verbatim>\<open>key:"value"\<close> pairs; \<^verbatim>\<open>Get\<close> returns
  the value of the first pair with the key, and the empty string when there is none.
\<close>

type_synonym StructTag = "(string \<times> string) list"

definition StructTag_Get :: "StructTag \<Rightarrow> string \<Rightarrow> string" where
  "StructTag_Get tag key = (case map_of tag key of None \<Rightarrow> [] | Some v \<Rightarrow> v)"

record StructField =
  Name :: string
  Type :: Type
  Tag :: StructTag

text \<open>Lines 81 to 89: split at the first \<^verbatim>\<open>=\<close>, trim every part, join with \<^verbatim>\<open>=\<close>.\<close>

definition instructionString :: "string \<Rightarrow> string" where
  "instructionString instruction =
     Join (map TrimSpace (SplitN instruction (CHR ''='') 2)) ''=''"

text \<open>The loop of lines 79 to 105 over the directives, on the map \<open>tags\<close>.\<close>

fun addInstructions :: "FieldName \<Rightarrow> string list \<Rightarrow> Instructions \<Rightarrow> Instructions" where
  "addInstructions name [] tags = tags"
| "addInstructions name (instruction # rest) tags =
     (let i = instructionString instruction
      in if i = [] then addInstructions name rest tags
         else addInstructions name rest
                (tags(i \<mapsto> (case tags i of None \<Rightarrow> [] | Some fs \<Rightarrow> fs) @ [name])))"

definition GetFromField :: "TaGo \<Rightarrow> StructField \<Rightarrow> Instructions" where
  "GetFromField t modelField =
     (let tagsAsString = StructTag_Get (Tag modelField) (TaGo.Name t)
      in if tagsAsString \<noteq> []
         then addInstructions (Name modelField) (SplitSeq tagsAsString (CHR '';'')) Map.empty
         else Map.empty)"

section \<open>Run-time types (package \<^verbatim>\<open>reflect\<close>) and the type walker (lines 113 to 129)\<close>

datatype Kind = Array | Chan | Func | Interface | Map | Ptr | Slice | Struct | Basic

text \<open>
  What the program reads of a type descriptor: its kind, its \<^verbatim>\<open>String()\<close> (which Go does
  not guarantee to be unique among types), its element type (read by \<^verbatim>\<open>Elem()\<close>, which
  panics unless the kind is Array, Chan, Map, Ptr or Slice) and its declared fields in
  order (read by \<^verbatim>\<open>NumField()\<close> and \<^verbatim>\<open>Field(i)\<close>, which panic unless the kind is Struct).
  \<open>types\<close> gives every type of the running program its descriptor; a descriptor refers
  to other types by identity, so a struct may have a field of its own type.
\<close>

record rtype =
  Kind :: Kind
  String :: string
  Elem :: Type
  Fields :: "StructField list"

type_synonym types = "Type \<Rightarrow> rtype"

definition Elem_of :: "types \<Rightarrow> Type \<Rightarrow> panic + Type" where
  "Elem_of U t =
     (if Kind (U t) \<in> {Array, Chan, Map, Ptr, Slice} then Inr (Elem (U t))
      else Inl ElemOfInvalidType)"

definition NumField :: "types \<Rightarrow> Type \<Rightarrow> panic + nat" where
  "NumField U t =
     (if Kind (U t) = Struct then Inr (length (Fields (U t))) else Inl NumFieldOfNonStruct)"

text \<open>
  The argument of \<^verbatim>\<open>typeToElem\<close> is \<open>None\<close> for the nil \<^verbatim>\<open>reflect.Type\<close> that
  \<^verbatim>\<open>reflect.TypeOf\<close> returns on a nil interface value; \<^verbatim>\<open>t.Kind()\<close> panics on it.
\<close>

definition typeToElem :: "types \<Rightarrow> Type option \<Rightarrow> panic + Type" where
  "typeToElem U t =
     (case t of
        None \<Rightarrow> Inl NilDereference
      | Some t0 \<Rightarrow>
          (case (if Kind (U t0) = Ptr then Elem_of U t0 else Inr t0) of
             Inl e \<Rightarrow> Inl e
           | Inr t1 \<Rightarrow>
               if Kind (U t1) = Slice
               then (case Elem_of U t1 of
                       Inl e \<Rightarrow> Inl e
                     | Inr t2 \<Rightarrow> if Kind (U t2) = Ptr then Elem_of U t2 else Inr t2)
               else Inr t1))"

section \<open>The index builder (lines 145 to 217)\<close>

text \<open>
  Of the \<^verbatim>\<open>model interface{}\<close> argument the program reads the dynamic type only.
  \<^verbatim>\<open>reflect.New(T).Elem().Interface()\<close> is \<open>interface_of T\<close>.
\<close>

datatype interface = nil_interface | interface_of Type

fun TypeOf :: "interface \<Rightarrow> Type option" where
  "TypeOf nil_interface = None"
| "TypeOf (interface_of T) = Some T"

text \<open>
  The loop \<^verbatim>\<open>for i := 0; i < modelType.NumField(); i++\<close> visits the declared fields in
  order, after \<^verbatim>\<open>NumField\<close> has returned.
\<close>

definition Get :: "types \<Rightarrow> TaGo \<Rightarrow> interface \<Rightarrow> panic + Instructions" where
  "Get U t model =
     (case typeToElem U (TypeOf model) of
        Inl e \<Rightarrow> Inl e
      | Inr modelType \<Rightarrow>
          (case NumField U modelType of
             Inl e \<Rightarrow> Inl e
           | Inr n \<Rightarrow>
               Inr (fold (\<lambda>modelField tags. concat_tags tags (GetFromField t modelField) [])
                      (Fields (U modelType)) Map.empty)))"

text \<open>
  \<^verbatim>\<open>getNested\<close> calls itself once for every level of nesting, and nothing bounds the
  depth when struct types refer to each other in a cycle. The first argument of the model
  is the number of nested calls the stack has room for; \<open>None\<close> is the run that exceeds
  it. \<open>getNested_fields\<close> is the loop of lines 172 to 195, \<open>recurse\<close> being the call of
  line 188.
\<close>

fun getNested_fields ::
  "(interface \<Rightarrow> string \<Rightarrow> (panic + Instructions) option) \<Rightarrow> types \<Rightarrow> TaGo \<Rightarrow> Type \<Rightarrow>
   string \<Rightarrow> string \<Rightarrow> StructField list \<Rightarrow> Instructions \<Rightarrow> (panic + Instructions) option"
where
  "getNested_fields recurse U t modelType pfx separator [] tags = Some (Inr tags)"
| "getNested_fields recurse U t modelType pfx separator (modelField # rest) tags =
     (let tags1 = concat_tags tags (GetFromField t modelField) pfx
      in case typeToElem U (Some (Type modelField)) of
           Inl e \<Rightarrow> Some (Inl e)
         | Inr fieldType \<Rightarrow>
             if String (U fieldType) \<noteq> String (U modelType)
             then if Kind (U fieldType) = Struct
                  then (case recurse (interface_of fieldType)
                               (pfx @ Name modelField @ separator) of
                          None \<Rightarrow> None
                        | Some (Inl e) \<Rightarrow> Some (Inl e)
                        | Some (Inr nested) \<Rightarrow>
                            getNested_fields recurse U t modelType pfx separator rest
                              (concat_tags tags1 nested []))
                  else getNested_fields recurse U t modelType pfx separator rest tags1
             else getNested_fields recurse U t modelType pfx separator rest tags1)"

fun getNested ::
  "nat \<Rightarrow> types \<Rightarrow> TaGo \<Rightarrow> interface \<Rightarrow> string \<Rightarrow> string \<Rightarrow> (panic + Instructions) option"
where
  "getNested 0 U t model pfx separator = None"
| "getNested (Suc depth) U t model pfx separator =
     (case typeToElem U (TypeOf model) of
        Inl e \<Rightarrow> Some (Inl e)
      | Inr modelType \<Rightarrow>
          (case NumField U modelType of
             Inl e \<Rightarrow> Some (Inl e)
           | Inr n \<Rightarrow>
               getNested_fields (\<lambda>m p. getNested depth U t m p separator) U t modelType
                 pfx separator (Fields (U modelType)) Map.empty))"

definition GetNested ::
  "nat \<Rightarrow> types \<Rightarrow> TaGo \<Rightarrow> interface \<Rightarrow> string \<Rightarrow> (panic + Instructions) option"
where
  "GetNested depth U t model separator = getNested depth U t model [] separator"

section \<open>The dispatcher and the membership query (lines 234 to 264)\<close>

text \<open>
  An action is a function the caller supplies and is run for its effect: it is a
  transformer of the caller's state \<open>'s\<close>. (An action that panics, as a nil function
  value does, ends the dispatch at that call; the actions here are the ones that return.)
  The mapping of \<^verbatim>\<open>Apply\<close> is a Go map, ranged over in an unspecified order: it is the
  list of its entries, with distinct keys, in the order the loop visits them.
\<close>

definition ApplyOne ::
  "TaGo \<Rightarrow> Instruction \<Rightarrow> Instructions \<Rightarrow> (FieldName \<Rightarrow> 's \<Rightarrow> 's) \<Rightarrow> 's \<Rightarrow> 's"
where
  "ApplyOne t instructionToCheck instructions action s =
     (case instructions instructionToCheck of
        Some fields' \<Rightarrow> fold action fields' s
      | None \<Rightarrow> s)"

definition Apply ::
  "TaGo \<Rightarrow> Instructions \<Rightarrow> (Instruction \<times> (FieldName \<Rightarrow> 's \<Rightarrow> 's)) list \<Rightarrow> 's \<Rightarrow> 's"
where
  "Apply t instructions instructionMapping s =
     fold (\<lambda>(instruction, action) s'.
             case instructions instruction of
               Some fields' \<Rightarrow> fold action fields' s'
             | None \<Rightarrow> s')
       instructionMapping s"

definition Has :: "types \<Rightarrow> TaGo \<Rightarrow> interface \<Rightarrow> Instruction \<Rightarrow> panic + bool" where
  "Has U t model instructionToCheck =
     (case Get U t model of
        Inl e \<Rightarrow> Inl e
      | Inr instructions \<Rightarrow> Inr (instructions instructionToCheck \<noteq> None))"

section \<open>Notions used to state the properties\<close>

text \<open>
  The struct type the loop of \<^verbatim>\<open>getNested\<close> descends into at a field (lines 183 to
  186), if it does: the unwrapped type of the field, when its \<^verbatim>\<open>String()\<close> differs from the
  one of the type being traversed and its kind is Struct.
\<close>

definition nestedType :: "types \<Rightarrow> Type \<Rightarrow> StructField \<Rightarrow> Type option" where
  "nestedType U modelType modelField =
     (case typeToElem U (Some (Type modelField)) of
        Inl e \<Rightarrow> None
      | Inr fieldType \<Rightarrow>
          if String (U fieldType) \<noteq> String (U modelType) \<and> Kind (U fieldType) = Struct
          then Some fieldType else None)"

text \<open>
  \<open>fieldPath U T Es F\<close>: from the struct type \<open>T\<close>, descending through the enclosing
  fields \<open>Es\<close> (outermost first), the traversal reaches the declared field \<open>F\<close>.
  \<open>fullPath\<close> is the name \<^verbatim>\<open>F1+sep+...+Fn+sep+name\<close> of such a field.
\<close>

fun fieldPath :: "types \<Rightarrow> Type \<Rightarrow> StructField list \<Rightarrow> StructField \<Rightarrow> bool" where
  "fieldPath U T [] F = (F \<in> set (Fields (U T)))"
| "fieldPath U T (E # Es) F =
     (E \<in> set (Fields (U T)) \<and>
      (case nestedType U T E of None \<Rightarrow> False | Some T' \<Rightarrow> fieldPath U T' Es F))"

definition fullPath :: "string \<Rightarrow> StructField list \<Rightarrow> StructField \<Rightarrow> FieldName" where
  "fullPath separator Es F = List.concat (map (\<lambda>E. Name E @ separator) Es) @ Name F"

text \<open>
  \<open>nestingWithin d U T\<close>: the struct types nested below \<open>T\<close>, as the traversal follows
  them, are fewer than \<open>d\<close> levels deep. A record type is acyclic when this holds for
  some \<open>d\<close>.
\<close>

fun nestingWithin :: "nat \<Rightarrow> types \<Rightarrow> Type \<Rightarrow> bool" where
  "nestingWithin 0 U T = False"
| "nestingWithin (Suc d) U T =
     (\<forall>E \<in> set (Fields (U T)).
        case nestedType U T E of None \<Rightarrow> True | Some T' \<Rightarrow> nestingWithin d U T')"

text \<open>The field names an index lists under an instruction.\<close>

definition namesOf :: "Instructions \<Rightarrow> Instruction \<Rightarrow> FieldName set" where
  "namesOf tags i = (case tags i of None \<Rightarrow> {} | Some names \<Rightarrow> set names)"

text \<open>
  The mapping whose actions do what the given ones do and also write down each call, as
  the instruction the action is bound to and the field name it receives.
\<close>

definition traced ::
  "(Instruction \<times> (FieldName \<Rightarrow> 's \<Rightarrow> 's)) list \<Rightarrow>
   (Instruction \<times> (FieldName \<Rightarrow> (Instruction \<times> FieldName) list \<times> 's \<Rightarrow>
      (Instruction \<times> FieldName) list \<times> 's)) list"
where
  "traced instructionMapping =
     map (\<lambda>(instruction, action).
            (instruction, \<lambda>f (calls, s). (calls @ [(instruction, f)], action f s)))
       instructionMapping"

section \<open>Example inputs\<close>

definition gorm2 :: TaGo where
  "gorm2 = \<lparr>TaGo.Name = ''gorm2''\<rparr>"

definition tagged :: "string \<Rightarrow> string \<Rightarrow> StructField" where
  "tagged name raw = \<lparr>Name = name, Type = 0, Tag = [(''gorm2'', raw)]\<rparr>"

text \<open>
  The types of the examples: the models of the comments of tago.go and a list node that
  refers to itself.
  \<^verbatim>\<open>
  type MyModel struct {
      Field1 string      `gorm2:"preload=true;otherOption=value"`
      Field2 int
      Field3 NestedModel `gorm2:"preload=true"`
  }
  type NestedModel struct {
      Subfield1 string `gorm2:"preload=true;otherOption=value2"`
  }
  type Node struct {
      Label    string  `gorm2:"index"`
      Next     *Node   `gorm2:"preload"`
      Children []*Node `gorm2:"preload"`
  }
  \<close>
\<close>

definition basic :: "string \<Rightarrow> rtype" where
  "basic name = \<lparr>Kind = Basic, String = name, Elem = 0, Fields = []\<rparr>"

definition struct :: "string \<Rightarrow> StructField list \<Rightarrow> rtype" where
  "struct name fs = \<lparr>Kind = Struct, String = name, Elem = 0, Fields = fs\<rparr>"

definition pointer :: "string \<Rightarrow> Type \<Rightarrow> rtype" where
  "pointer name T = \<lparr>Kind = Ptr, String = name, Elem = T, Fields = []\<rparr>"

definition slice :: "string \<Rightarrow> Type \<Rightarrow> rtype" where
  "slice name T = \<lparr>Kind = Slice, String = name, Elem = T, Fields = []\<rparr>"

definition field :: "string \<Rightarrow> Type \<Rightarrow> string \<Rightarrow> StructField" where
  "field name T raw = \<lparr>Name = name, Type = T, Tag = [(''gorm2'', raw)]\<rparr>"

definition untagged :: "string \<Rightarrow> Type \<Rightarrow> StructField" where
  "untagged name T = \<lparr>Name = name, Type = T, Tag = []\<rparr>"

definition exampleTypes :: types where
  "exampleTypes T =
     (if T = 1 then basic ''int''
      else if T = 2 then
        struct ''main.MyModel''
          [field ''Field1'' 0 ''preload=true;otherOption=value'',
           untagged ''Field2'' 1,
           field ''Field3'' 3 ''preload=true'']
      else if T = 3 then
        struct ''main.NestedModel'' [field ''Subfield1'' 0 ''preload=true;otherOption=value2'']
      else if T = 4 then pointer ''*main.MyModel'' 2
      else if T = 5 then
        struct ''main.Node''
          [field ''Label'' 0 ''index'', field ''Next'' 6 ''preload'',
           field ''Children'' 7 ''preload'']
      else if T = 6 then pointer ''*main.Node'' 5
      else if T = 7 then slice ''[]*main.Node'' 6
      else if T = 8 then slice ''[]main.MyModel'' 2
      else if T = 9 then pointer ''**main.MyModel'' 4
      else basic ''string'')"

text \<open>
  Two struct types of two packages that are both named \<^verbatim>\<open>models\<close>: they are distinct
  types and \<^verbatim>\<open>String()\<close> prints both as \<^verbatim>\<open>models.User\<close>.
  \<^verbatim>\<open>
  // package example.com/a/models
  type User struct {
      Name  string       `gorm2:"index"`
      Owner bmodels.User `gorm2:"preload"`
  }
  // package example.com/b/models, imported above as bmodels
  type User struct {
      Email string `gorm2:"unique"`
  }
  \<close>
  In \<open>otherNameTypes\<close> the second package is named \<^verbatim>\<open>accounts\<close> instead, and nothing
  else differs.
\<close>

definition sameNameTypes :: types where
  "sameNameTypes T =
     (if T = 1 then
        struct ''models.User'' [field ''Name'' 0 ''index'', field ''Owner'' 2 ''preload'']
      else if T = 2 then struct ''models.User'' [field ''Email'' 0 ''unique'']
      else basic ''string'')"

definition otherNameTypes :: types where
  "otherNameTypes T =
     (if T = 1 then
        struct ''models.User'' [field ''Name'' 0 ''index'', field ''Owner'' 2 ''preload'']
      else if T = 2 then struct ''accounts.User'' [field ''Email'' 0 ''unique'']
      else basic ''string'')"

section \<open>White space and trimming\<close>

lemma whiteSpace_nonempty: "e \<in> set whiteSpace \<Longrightarrow> e \<noteq> []"
  by (auto simp: whiteSpace_def)

lemma whiteSpace_no_separator:
  "e \<in> set whiteSpace \<Longrightarrow> CHR ''='' \<notin> set e \<and> CHR '';'' \<notin> set e"
  by (auto simp: whiteSpace_def)

lemma leadingSpace_Some: "leadingSpace s = Some e \<Longrightarrow> e \<in> set whiteSpace \<and> prefix e s"
  by (auto simp: leadingSpace_def find_Some_iff in_set_conv_nth)

lemma leadingSpace_None: "leadingSpace s = None \<longleftrightarrow> (\<forall>e \<in> set whiteSpace. \<not> prefix e s)"
  by (auto simp: leadingSpace_def find_None_iff)

lemma trailingSpace_Some: "trailingSpace s = Some e \<Longrightarrow> e \<in> set whiteSpace \<and> suffix e s"
  by (auto simp: trailingSpace_def find_Some_iff in_set_conv_nth)

lemma trailingSpace_None: "trailingSpace s = None \<longleftrightarrow> (\<forall>e \<in> set whiteSpace. \<not> suffix e s)"
  by (auto simp: trailingSpace_def find_None_iff)

lemma trimLeftSpace_suffix: "suffix (trimLeftSpace s) s"
proof (induction s rule: trimLeftSpace.induct)
  case (1 s)
  show ?case
  proof (cases "leadingSpace s")
    case None
    then show ?thesis by (simp add: trimLeftSpace.simps)
  next
    case (Some e)
    from 1 [OF Some] have "suffix (trimLeftSpace (drop (length e) s)) (drop (length e) s)" .
    then have "suffix (trimLeftSpace (drop (length e) s)) s"
      using suffix_drop suffix_order.trans by blast
    with Some show ?thesis by (simp add: trimLeftSpace.simps)
  qed
qed

lemma trimLeftSpace_done: "leadingSpace (trimLeftSpace s) = None"
proof (induction s rule: trimLeftSpace.induct)
  case (1 s)
  show ?case
  proof (cases "leadingSpace s")
    case None
    then show ?thesis by (simp add: trimLeftSpace.simps)
  next
    case (Some e)
    with 1 [OF Some] show ?thesis by (simp add: trimLeftSpace.simps)
  qed
qed

lemma trimLeftSpace_id: "leadingSpace s = None \<Longrightarrow> trimLeftSpace s = s"
  by (simp add: trimLeftSpace.simps)

lemma trimLeftSpace_bytes:
  "c \<in> set s \<Longrightarrow> c \<in> set (trimLeftSpace s) \<or> (\<exists>e \<in> set whiteSpace. c \<in> set e)"
proof (induction s rule: trimLeftSpace.induct)
  case (1 s)
  show ?case
  proof (cases "leadingSpace s")
    case None
    with 1 show ?thesis by (simp add: trimLeftSpace.simps)
  next
    case (Some e)
    then have e: "e \<in> set whiteSpace" "prefix e s" by (auto dest: leadingSpace_Some)
    then have "s = e @ drop (length e) s" by (auto simp: prefix_def)
    then have "set s = set e \<union> set (drop (length e) s)" by (metis set_append)
    with 1(2) have "c \<in> set e \<or> c \<in> set (drop (length e) s)" by auto
    then show ?thesis
    proof
      assume "c \<in> set e" with e show ?thesis by blast
    next
      assume "c \<in> set (drop (length e) s)"
      from 1(1) [OF Some this] Some show ?thesis by (simp add: trimLeftSpace.simps)
    qed
  qed
qed

lemma trimRightSpace_prefix: "prefix (trimRightSpace s) s"
proof (induction s rule: trimRightSpace.induct)
  case (1 s)
  show ?case
  proof (cases "trailingSpace s")
    case None
    then show ?thesis by (simp add: trimRightSpace.simps)
  next
    case (Some e)
    from 1 [OF Some]
    have "prefix (trimRightSpace (take (length s - length e) s)) (take (length s - length e) s)" .
    then have "prefix (trimRightSpace (take (length s - length e) s)) s"
      using take_is_prefix prefix_order.trans by blast
    with Some show ?thesis by (simp add: trimRightSpace.simps)
  qed
qed

lemma trimRightSpace_done: "trailingSpace (trimRightSpace s) = None"
proof (induction s rule: trimRightSpace.induct)
  case (1 s)
  show ?case
  proof (cases "trailingSpace s")
    case None
    then show ?thesis by (simp add: trimRightSpace.simps)
  next
    case (Some e)
    with 1 [OF Some] show ?thesis by (simp add: trimRightSpace.simps)
  qed
qed

lemma trimRightSpace_id: "trailingSpace s = None \<Longrightarrow> trimRightSpace s = s"
  by (simp add: trimRightSpace.simps)

lemma trimRightSpace_bytes:
  "c \<in> set s \<Longrightarrow> c \<in> set (trimRightSpace s) \<or> (\<exists>e \<in> set whiteSpace. c \<in> set e)"
proof (induction s rule: trimRightSpace.induct)
  case (1 s)
  show ?case
  proof (cases "trailingSpace s")
    case None
    with 1 show ?thesis by (simp add: trimRightSpace.simps)
  next
    case (Some e)
    then have e: "e \<in> set whiteSpace" "suffix e s" by (auto dest: trailingSpace_Some)
    then have "s = take (length s - length e) s @ e" by (auto simp: suffix_def)
    then have "set s = set (take (length s - length e) s) \<union> set e" by (metis set_append)
    with 1(2) have "c \<in> set e \<or> c \<in> set (take (length s - length e) s)" by auto
    then show ?thesis
    proof
      assume "c \<in> set e" with e show ?thesis by blast
    next
      assume "c \<in> set (take (length s - length e) s)"
      from 1(1) [OF Some this] Some show ?thesis by (simp add: trimRightSpace.simps)
    qed
  qed
qed

lemma TrimSpace_subset: "set (TrimSpace s) \<subseteq> set s"
proof -
  have "set (trimRightSpace (trimLeftSpace s)) \<subseteq> set (trimLeftSpace s)"
    using trimRightSpace_prefix set_mono_prefix by blast
  moreover have "set (trimLeftSpace s) \<subseteq> set s"
    using trimLeftSpace_suffix set_mono_suffix by blast
  ultimately show ?thesis by (auto simp: TrimSpace_def)
qed

lemma TrimSpace_idem: "TrimSpace (TrimSpace s) = TrimSpace s"
proof -
  let ?r = "trimRightSpace (trimLeftSpace s)"
  have "prefix ?r (trimLeftSpace s)" by (rule trimRightSpace_prefix)
  moreover have "\<forall>e \<in> set whiteSpace. \<not> prefix e (trimLeftSpace s)"
    using trimLeftSpace_done leadingSpace_None by blast
  ultimately have "\<forall>e \<in> set whiteSpace. \<not> prefix e ?r"
    using prefix_order.trans by blast
  then have "trimLeftSpace ?r = ?r" by (simp add: trimLeftSpace_id leadingSpace_None)
  moreover have "trimRightSpace ?r = ?r" by (simp add: trimRightSpace_id trimRightSpace_done)
  ultimately show ?thesis by (simp add: TrimSpace_def)
qed

lemma TrimSpace_Nil: "TrimSpace [] = []"
  using TrimSpace_subset [of "[]"] by simp

lemma TrimSpace_empty_bytes:
  assumes "TrimSpace s = []" and "c \<in> set s"
  shows "\<exists>e \<in> set whiteSpace. c \<in> set e"
proof -
  from assms(2) have "c \<in> set (trimLeftSpace s) \<or> (\<exists>e \<in> set whiteSpace. c \<in> set e)"
    by (rule trimLeftSpace_bytes)
  then show ?thesis
  proof
    assume "c \<in> set (trimLeftSpace s)"
    then have "c \<in> set (trimRightSpace (trimLeftSpace s)) \<or> (\<exists>e \<in> set whiteSpace. c \<in> set e)"
      by (rule trimRightSpace_bytes)
    with assms(1) show ?thesis by (simp add: TrimSpace_def)
  qed
qed

lemma TrimSpace_empty_no_separator:
  "TrimSpace s = [] \<Longrightarrow> CHR ''='' \<notin> set s \<and> CHR '';'' \<notin> set s"
  using TrimSpace_empty_bytes whiteSpace_no_separator by blast

section \<open>Splitting\<close>

lemma genSplit_all: "genSplit s sep (- 1) = cut s sep (Count s sep)"
proof -
  have "Count s sep \<le> length s" by (simp add: Count_def)
  then show ?thesis by (simp add: genSplit_def Let_def)
qed

lemma SplitN_2:
  "SplitN s sep 2 =
     (if sep \<in> set s then [takeWhile (\<lambda>c. c \<noteq> sep) s, tl (dropWhile (\<lambda>c. c \<noteq> sep) s)] else [s])"
proof (cases s)
  case Nil
  then show ?thesis by (simp add: SplitN_def genSplit_def)
next
  case (Cons c cs)
  have "nat (2 - 1) = Suc 0" by simp
  with Cons show ?thesis by (simp add: SplitN_def genSplit_def)
qed

lemma split_at_first:
  "sep \<in> set s \<Longrightarrow> s = takeWhile (\<lambda>c. c \<noteq> sep) s @ sep # tl (dropWhile (\<lambda>c. c \<noteq> sep) s)"
proof -
  assume "sep \<in> set s"
  then have "dropWhile (\<lambda>c. c \<noteq> sep) s \<noteq> []" by simp
  moreover from this have "hd (dropWhile (\<lambda>c. c \<noteq> sep) s) = sep"
    using hd_dropWhile [of "\<lambda>c. c \<noteq> sep" s] by simp
  ultimately have "dropWhile (\<lambda>c. c \<noteq> sep) s = sep # tl (dropWhile (\<lambda>c. c \<noteq> sep) s)"
    by (metis list.collapse)
  then show ?thesis by (metis takeWhile_dropWhile_id)
qed

lemma takeWhile_no_sep: "sep \<notin> set (takeWhile (\<lambda>c. c \<noteq> sep) s)"
  by (auto dest: set_takeWhileD)

lemma Count_0: "Count s sep = 0 \<longleftrightarrow> sep \<notin> set s"
  by (auto simp: Count_def filter_empty_conv)

lemma Count_rest:
  "sep \<in> set s \<Longrightarrow> Count s sep = Suc (Count (tl (dropWhile (\<lambda>c. c \<noteq> sep) s)) sep)"
proof -
  assume a: "sep \<in> set s"
  have "filter (\<lambda>c. c = sep) (takeWhile (\<lambda>c. c \<noteq> sep) s) = []"
    by (auto simp: filter_empty_conv dest: set_takeWhileD)
  then have "Count (takeWhile (\<lambda>c. c \<noteq> sep) s @ sep # tl (dropWhile (\<lambda>c. c \<noteq> sep) s)) sep
      = Suc (Count (tl (dropWhile (\<lambda>c. c \<noteq> sep) s)) sep)"
    by (simp add: Count_def)
  with split_at_first [OF a] show ?thesis by simp
qed

lemma cut_Nil: "cut [] sep n = [[]]"
  by (cases n) auto

lemma cut_sep: "cut (sep # s) sep (Suc n) = [] # cut s sep n"
  by simp

lemma cut_other:
  "c \<noteq> sep \<Longrightarrow> Count s sep \<le> n \<Longrightarrow> cut (c # s) sep n = (c # hd (cut s sep n)) # tl (cut s sep n)"
proof (cases n)
  case 0
  assume "c \<noteq> sep" "Count s sep \<le> n"
  with 0 show ?thesis by simp
next
  case (Suc m)
  assume "c \<noteq> sep" "Count s sep \<le> n"
  with Suc show ?thesis by simp
qed

lemma cut_nonempty: "cut s sep n \<noteq> []"
  by (cases n) auto

lemma cut_no_sep: "Count s sep \<le> n \<Longrightarrow> x \<in> set (cut s sep n) \<Longrightarrow> sep \<notin> set x"
proof (induction n arbitrary: s)
  case 0
  then show ?case by (simp add: Count_0)
next
  case (Suc n)
  show ?case
  proof (cases "sep \<in> set s")
    case True
    with Suc.prems(1) have "Count (tl (dropWhile (\<lambda>c. c \<noteq> sep) s)) sep \<le> n"
      by (simp add: Count_rest)
    with Suc.IH Suc.prems(2) True show ?thesis
      by (auto simp: takeWhile_no_sep dest: set_takeWhileD)
  next
    case False
    with Suc.prems(2) show ?thesis by simp
  qed
qed

lemma SplitSeq_no_sep: "x \<in> set (SplitSeq s sep) \<Longrightarrow> sep \<notin> set x"
  by (auto simp: SplitSeq_def genSplit_all dest: cut_no_sep [rotated])

lemma SplitSeq_single: "sep \<notin> set s \<Longrightarrow> SplitSeq s sep = [s]"
proof -
  assume "sep \<notin> set s"
  then have "Count s sep = 0" by (simp add: Count_0)
  then show ?thesis by (simp add: SplitSeq_def genSplit_all)
qed

lemma SplitSeq_Nil: "SplitSeq [] sep = [[]]"
  by (simp add: SplitSeq_single)

lemma cut_more: "Count s sep \<le> n \<Longrightarrow> cut s sep n = cut s sep (Count s sep)"
proof (induction n arbitrary: s)
  case 0
  then show ?case by simp
next
  case (Suc n)
  show ?case
  proof (cases "sep \<in> set s")
    case True
    let ?r = "tl (dropWhile (\<lambda>c. c \<noteq> sep) s)"
    from True Suc.prems have "Count ?r sep \<le> n" by (simp add: Count_rest)
    then have "cut ?r sep n = cut ?r sep (Count ?r sep)" by (rule Suc.IH)
    with True show ?thesis by (simp add: Count_rest)
  next
    case False
    then have "Count s sep = 0" by (simp add: Count_0)
    with False show ?thesis by simp
  qed
qed

lemma SplitSeq_Cons:
  "SplitSeq (c # s) sep =
     (if c = sep then [] # SplitSeq s sep
      else (c # hd (SplitSeq s sep)) # tl (SplitSeq s sep))"
proof (cases "c = sep")
  case True
  then have "Count (c # s) sep = Suc (Count s sep)" by (simp add: Count_def)
  with True show ?thesis by (simp add: SplitSeq_def genSplit_all)
next
  case False
  then have "Count (c # s) sep = Count s sep" by (simp add: Count_def)
  with False show ?thesis by (simp add: SplitSeq_def genSplit_all cut_other)
qed

lemma SplitSeq_nonempty: "SplitSeq s sep \<noteq> []"
  by (simp add: SplitSeq_def genSplit_all cut_nonempty)

lemma SplitSeq_separator:
  "SplitSeq (a @ sep # b) sep = SplitSeq a sep @ SplitSeq b sep"
proof (induction a)
  case Nil
  then show ?case by (simp add: SplitSeq_Cons SplitSeq_Nil)
next
  case (Cons c a)
  obtain x xs where x: "SplitSeq a sep = x # xs"
    using SplitSeq_nonempty [of a sep] by (cases "SplitSeq a sep") auto
  with Cons show ?case by (simp add: SplitSeq_Cons)
qed

section \<open>What the tag parser computes\<close>

lemma instructionString_eq:
  "instructionString d =
     (if CHR ''='' \<in> set d
      then TrimSpace (takeWhile (\<lambda>c. c \<noteq> CHR ''='') d) @ ''='' @
           TrimSpace (tl (dropWhile (\<lambda>c. c \<noteq> CHR ''='') d))
      else TrimSpace d)"
  by (simp add: instructionString_def SplitN_2)

lemma TrimSpace_no_char: "c \<notin> set s \<Longrightarrow> c \<notin> set (TrimSpace s)"
  using TrimSpace_subset by blast

lemma takeWhile_append_sep:
  "sep \<notin> set k \<Longrightarrow> takeWhile (\<lambda>c. c \<noteq> sep) (k @ sep # v) = k"
  by (induction k) auto

lemma dropWhile_append_sep:
  "sep \<notin> set k \<Longrightarrow> dropWhile (\<lambda>c. c \<noteq> sep) (k @ sep # v) = sep # v"
  by (induction k) auto

lemma instructionString_idem: "instructionString (instructionString d) = instructionString d"
proof (cases "CHR ''='' \<in> set d")
  case True
  let ?k = "TrimSpace (takeWhile (\<lambda>c. c \<noteq> CHR ''='') d)"
  let ?v = "TrimSpace (tl (dropWhile (\<lambda>c. c \<noteq> CHR ''='') d))"
  have k: "CHR ''='' \<notin> set ?k" by (rule TrimSpace_no_char) (rule takeWhile_no_sep)
  from True have i: "instructionString d = ?k @ CHR ''='' # ?v"
    by (simp add: instructionString_eq)
  have "instructionString (?k @ CHR ''='' # ?v) = TrimSpace ?k @ ''='' @ TrimSpace ?v"
    using k by (simp add: instructionString_eq takeWhile_append_sep dropWhile_append_sep)
  with i show ?thesis by (simp add: TrimSpace_idem)
next
  case False
  then have "CHR ''='' \<notin> set (TrimSpace d)" by (rule TrimSpace_no_char)
  with False show ?thesis by (simp add: instructionString_eq TrimSpace_idem)
qed

lemma instructionString_no_semicolon:
  "CHR '';'' \<notin> set d \<Longrightarrow> CHR '';'' \<notin> set (instructionString d)"
proof -
  assume a: "CHR '';'' \<notin> set d"
  then have "CHR '';'' \<notin> set (TrimSpace d)" by (rule TrimSpace_no_char)
  moreover from a have "CHR '';'' \<notin> set (takeWhile (\<lambda>c. c \<noteq> CHR ''='') d)"
    by (auto dest: set_takeWhileD)
  then have "CHR '';'' \<notin> set (TrimSpace (takeWhile (\<lambda>c. c \<noteq> CHR ''='') d))"
    by (rule TrimSpace_no_char)
  moreover from a have "CHR '';'' \<notin> set (tl (dropWhile (\<lambda>c. c \<noteq> CHR ''='') d))"
    by (metis list.set_sel(2) set_dropWhileD tl_Nil)
  then have "CHR '';'' \<notin> set (TrimSpace (tl (dropWhile (\<lambda>c. c \<noteq> CHR ''='') d)))"
    by (rule TrimSpace_no_char)
  ultimately show ?thesis by (simp add: instructionString_eq)
qed

lemma instructionString_empty:
  "instructionString d = [] \<longleftrightarrow> CHR ''='' \<notin> set d \<and> TrimSpace d = []"
  by (simp add: instructionString_eq)

text \<open>The loop adds the field name once for every directive that normalizes to \<open>i\<close>.\<close>

lemma addInstructions_eq:
  "addInstructions name ds tags i =
     (if i = [] \<or> i \<notin> instructionString ` set ds then tags i
      else Some ((case tags i of None \<Rightarrow> [] | Some fs \<Rightarrow> fs)
                 @ replicate (length (filter (\<lambda>d. instructionString d = i) ds)) name))"
proof (induction ds arbitrary: tags)
  case Nil
  then show ?case by simp
next
  case (Cons d ds)
  show ?case
  proof (cases "instructionString d = []")
    case True
    with Cons show ?thesis by (auto simp: Let_def)
  next
    case False
    show ?thesis
    proof (cases "instructionString d = i")
      case True
      with False Cons show ?thesis
        by (auto simp: Let_def replicate_append_same filter_empty_conv image_iff)
    next
      case ne: False
      with False Cons show ?thesis by (auto simp: Let_def)
    qed
  qed
qed

lemma GetFromField_eq:
  "GetFromField t F i =
     (let ds = SplitSeq (StructTag_Get (Tag F) (TaGo.Name t)) (CHR '';'')
      in if i = [] \<or> i \<notin> instructionString ` set ds then None
         else Some (replicate (length (filter (\<lambda>d. instructionString d = i) ds)) (Name F)))"
proof (cases "StructTag_Get (Tag F) (TaGo.Name t) = []")
  case True
  have "instructionString [] = []" by (simp add: instructionString_eq TrimSpace_Nil)
  with True show ?thesis by (auto simp: GetFromField_def SplitSeq_Nil)
next
  case False
  then show ?thesis by (simp add: GetFromField_def addInstructions_eq Let_def)
qed

lemma GetFromField_dom:
  "dom (GetFromField t F) =
     instructionString ` set (SplitSeq (StructTag_Get (Tag F) (TaGo.Name t)) (CHR '';'')) - {[]}"
  by (auto simp: GetFromField_eq Let_def dom_def)

lemma GetFromField_names:
  "GetFromField t F i = Some names \<Longrightarrow> names \<noteq> [] \<and> set names = {Name F}"
  by (auto simp: GetFromField_eq Let_def filter_empty_conv split: if_splits)

lemma takeWhile_all: "sep \<notin> set s \<Longrightarrow> takeWhile (\<lambda>c. c \<noteq> sep) s = s"
  by (induction s) auto

lemma Key_eq: "Key i = Inr (TrimSpace (takeWhile (\<lambda>c. c \<noteq> CHR ''='') i))"
proof (cases "CHR ''='' \<in> set i")
  case True
  then show ?thesis by (simp add: Key_def SplitN_2)
next
  case False
  then show ?thesis by (simp add: Key_def SplitN_2 takeWhile_all)
qed

lemma Value_eq:
  "Value i = (if CHR ''='' \<in> set i then TrimSpace (tl (dropWhile (\<lambda>c. c \<noteq> CHR ''='') i)) else ''true'')"
  by (simp add: Value_def SplitN_2)

lemma Value_instructionString:
  "Value (instructionString d) =
     (if CHR ''='' \<in> set d then TrimSpace (tl (dropWhile (\<lambda>c. c \<noteq> CHR ''='') d)) else ''true'')"
proof (cases "CHR ''='' \<in> set d")
  case True
  let ?k = "TrimSpace (takeWhile (\<lambda>c. c \<noteq> CHR ''='') d)"
  let ?v = "TrimSpace (tl (dropWhile (\<lambda>c. c \<noteq> CHR ''='') d))"
  have k: "CHR ''='' \<notin> set ?k" by (rule TrimSpace_no_char) (rule takeWhile_no_sep)
  from True have i: "instructionString d = ?k @ CHR ''='' # ?v"
    by (simp add: instructionString_eq)
  have "Value (?k @ CHR ''='' # ?v) = TrimSpace ?v"
    using k by (simp add: Value_eq dropWhile_append_sep)
  with i True show ?thesis by (simp add: TrimSpace_idem)
next
  case False
  then have "CHR ''='' \<notin> set (TrimSpace d)" by (rule TrimSpace_no_char)
  with False show ?thesis by (simp add: instructionString_eq Value_eq)
qed

text \<open>
  Claim C3. Every instruction the parser produces has a key without \<^verbatim>\<open>=\<close> (and \<^verbatim>\<open>Key\<close> does
  not panic); it is the normalized form of a directive of the raw tag, and for every such
  directive its value is \<^verbatim>\<open>"true"\<close> when the directive has no \<^verbatim>\<open>=\<close>, and otherwise the
  trimmed text after the first \<^verbatim>\<open>=\<close> of the directive.
\<close>

theorem Key_without_equals_Value_default:
  assumes "i \<in> dom (GetFromField t F)"
  shows "(\<exists>k. Key i = Inr k \<and> CHR ''='' \<notin> set k) \<and>
         (\<exists>d \<in> set (SplitSeq (StructTag_Get (Tag F) (TaGo.Name t)) (CHR '';'')).
            instructionString d = i) \<and>
         (\<forall>d \<in> set (SplitSeq (StructTag_Get (Tag F) (TaGo.Name t)) (CHR '';'')).
            instructionString d = i \<longrightarrow>
            Value i = (if CHR ''='' \<in> set d
                       then TrimSpace (tl (dropWhile (\<lambda>c. c \<noteq> CHR ''='') d))
                       else ''true''))"
proof -
  have "CHR ''='' \<notin> set (TrimSpace (takeWhile (\<lambda>c. c \<noteq> CHR ''='') i))"
    by (rule TrimSpace_no_char) (rule takeWhile_no_sep)
  then have "\<exists>k. Key i = Inr k \<and> CHR ''='' \<notin> set k" by (simp add: Key_eq)
  moreover from assms
  have "\<exists>d \<in> set (SplitSeq (StructTag_Get (Tag F) (TaGo.Name t)) (CHR '';'')).
          instructionString d = i"
    by (auto simp: GetFromField_dom)
  ultimately show ?thesis using Value_instructionString by blast
qed

theorem Key_without_equals_Value_default_witness:
  "''a=b = c'' \<in> dom (GetFromField gorm2 (tagged ''Field1'' ''preload; a = b = c '')) \<and>
   ''preload'' \<in> dom (GetFromField gorm2 (tagged ''Field1'' ''preload; a = b = c '')) \<and>
   Key ''a=b = c'' = Inr ''a'' \<and> Value ''a=b = c'' = ''b = c'' \<and>
   Key ''preload'' = Inr ''preload'' \<and> Value ''preload'' = ''true''"
proof -
  let ?F = "tagged ''Field1'' ''preload; a = b = c ''"
  have raw: "SplitSeq (StructTag_Get (Tag ?F) (TaGo.Name gorm2)) (CHR '';'') = [''preload'', '' a = b = c '']"
    by code_simp
  have n1: "instructionString ''preload'' = ''preload''" by code_simp
  have n2: "instructionString '' a = b = c '' = ''a=b = c''" by code_simp
  have "GetFromField gorm2 ?F ''a=b = c'' = Some [''Field1'']" by code_simp
  then have h1: "''a=b = c'' \<in> dom (GetFromField gorm2 ?F)" by blast
  have "GetFromField gorm2 ?F ''preload'' = Some [''Field1'']" by code_simp
  then have h2: "''preload'' \<in> dom (GetFromField gorm2 ?F)" by blast
  have t1: "TrimSpace (tl (dropWhile (\<lambda>c. c \<noteq> CHR ''='') '' a = b = c '')) = ''b = c''"
    by code_simp
  have k1: "Key ''a=b = c'' = Inr ''a''" by code_simp
  have k2: "Key ''preload'' = Inr ''preload''" by code_simp
  from Key_without_equals_Value_default [OF h1] raw n2 t1
  have "Value ''a=b = c'' = ''b = c''" by simp
  moreover from Key_without_equals_Value_default [OF h2] raw n1
  have "Value ''preload'' = ''true''" by simp
  ultimately show ?thesis using h1 h2 k1 k2 by simp
qed

lemma GetFromField_by_normalized:
  "GetFromField t F i =
     (let is = filter (\<lambda>i. i \<noteq> []) (map instructionString
                 (SplitSeq (StructTag_Get (Tag F) (TaGo.Name t)) (CHR '';'')))
      in if i \<notin> set is then None
         else Some (replicate (length (filter (\<lambda>j. j = i) is)) (Name F)))"
proof -
  have count: "i \<noteq> [] \<Longrightarrow> length (filter (\<lambda>d. instructionString d = i) ds)
      = length (filter (\<lambda>j. j = i) (filter (\<lambda>i. i \<noteq> []) (map instructionString ds)))"
    for ds
    by (induction ds) auto
  have mem: "i \<in> set (filter (\<lambda>i. i \<noteq> []) (map instructionString ds))
      \<longleftrightarrow> i \<noteq> [] \<and> i \<in> instructionString ` set ds" for ds
    by auto
  show ?thesis
    unfolding GetFromField_eq Let_def mem
    by (cases "i = []") (simp_all add: count)
qed

lemma GetFromField_cong:
  assumes "Name F' = Name F"
    and "filter (\<lambda>i. i \<noteq> []) (map instructionString (SplitSeq (StructTag_Get (Tag F') (TaGo.Name t')) (CHR '';'')))
       = filter (\<lambda>i. i \<noteq> []) (map instructionString (SplitSeq (StructTag_Get (Tag F) (TaGo.Name t)) (CHR '';'')))"
  shows "GetFromField t' F' = GetFromField t F"
proof
  fix i
  show "GetFromField t' F' i = GetFromField t F i"
    unfolding GetFromField_by_normalized assms ..
qed

lemma blank_directive:
  assumes "TrimSpace w = []"
  shows "SplitSeq w (CHR '';'') = [w]" and "instructionString w = []"
proof -
  from assms have "CHR ''='' \<notin> set w" "CHR '';'' \<notin> set w"
    by (auto dest: TrimSpace_empty_no_separator)
  with assms show "SplitSeq w (CHR '';'') = [w]" and "instructionString w = []"
    by (simp_all add: SplitSeq_single instructionString_empty)
qed

text \<open>
  Claim C4. \<^verbatim>\<open>GetFromField\<close> is a total function (it has no failing branch) and never records
  the empty instruction; a raw tag that is empty or white space only gives the empty
  index; and a directive that is empty or white space only, between two separators, after
  the last one or before the first one, changes nothing in the index.
\<close>

theorem GetFromField_drops_empty_directives:
  "[] \<notin> dom (GetFromField t F) \<and>
   (TrimSpace (StructTag_Get (Tag F) (TaGo.Name t)) = [] \<longrightarrow> GetFromField t F = Map.empty) \<and>
   (\<forall>a w b F'. TrimSpace w = [] \<and> Name F' = Name F \<and>
      StructTag_Get (Tag F) (TaGo.Name t) = a @ '';'' @ b \<and>
      StructTag_Get (Tag F') (TaGo.Name t) = a @ '';'' @ w @ '';'' @ b \<longrightarrow>
      GetFromField t F' = GetFromField t F) \<and>
   (\<forall>a w F'. TrimSpace w = [] \<and> Name F' = Name F \<and>
      StructTag_Get (Tag F) (TaGo.Name t) = a \<and>
      (StructTag_Get (Tag F') (TaGo.Name t) = a @ '';'' @ w \<or>
       StructTag_Get (Tag F') (TaGo.Name t) = w @ '';'' @ a) \<longrightarrow>
      GetFromField t F' = GetFromField t F)"
proof (intro conjI allI impI)
  show "[] \<notin> dom (GetFromField t F)" by (simp add: GetFromField_dom)
next
  assume e: "TrimSpace (StructTag_Get (Tag F) (TaGo.Name t)) = []"
  from blank_directive [OF e] show "GetFromField t F = Map.empty"
    by (auto simp: GetFromField_eq)
next
  fix a w b and F' :: StructField
  assume h: "TrimSpace w = [] \<and> Name F' = Name F \<and>
      StructTag_Get (Tag F) (TaGo.Name t) = a @ '';'' @ b \<and>
      StructTag_Get (Tag F') (TaGo.Name t) = a @ '';'' @ w @ '';'' @ b"
  then have w: "SplitSeq w (CHR '';'') = [w]" "instructionString w = []"
    by (auto dest: blank_directive)
  have "SplitSeq (a @ CHR '';'' # w @ CHR '';'' # b) (CHR '';'')
      = SplitSeq a (CHR '';'') @ [w] @ SplitSeq b (CHR '';'')"
    by (simp add: SplitSeq_separator w)
  with h w show "GetFromField t F' = GetFromField t F"
    by (intro GetFromField_cong) (simp_all add: SplitSeq_separator)
next
  fix a w and F' :: StructField
  assume h: "TrimSpace w = [] \<and> Name F' = Name F \<and>
      StructTag_Get (Tag F) (TaGo.Name t) = a \<and>
      (StructTag_Get (Tag F') (TaGo.Name t) = a @ '';'' @ w \<or>
       StructTag_Get (Tag F') (TaGo.Name t) = w @ '';'' @ a)"
  then have w: "SplitSeq w (CHR '';'') = [w]" "instructionString w = []"
    by (auto dest: blank_directive)
  from h w show "GetFromField t F' = GetFromField t F"
    by (intro GetFromField_cong) (auto simp: SplitSeq_separator)
qed

theorem GetFromField_drops_empty_directives_witness:
  "TrimSpace '' '' = [] \<and>
   GetFromField gorm2 (tagged ''Field1'' ''   '') = Map.empty \<and>
   GetFromField gorm2 (tagged ''Field1'' ''a=1; ;b=2'') = GetFromField gorm2 (tagged ''Field1'' ''a=1;b=2'') \<and>
   GetFromField gorm2 (tagged ''Field1'' ''a=1; '') = GetFromField gorm2 (tagged ''Field1'' ''a=1'') \<and>
   GetFromField gorm2 (tagged ''Field1'' ''a=1;b=2'') ''a=1'' = Some [''Field1'']"
proof -
  have get: "StructTag_Get (Tag (tagged n raw)) (TaGo.Name gorm2) = raw" for n raw
    by (simp add: tagged_def gorm2_def StructTag_Get_def)
  have name: "Name (tagged n raw) = n" for n raw
    by (simp add: tagged_def)
  have w1: "TrimSpace '' '' = []" by code_simp
  have w3: "TrimSpace ''   '' = []" by code_simp
  note T = GetFromField_drops_empty_directives
  from T [of gorm2 "tagged ''Field1'' ''   ''"] w3
  have c2: "GetFromField gorm2 (tagged ''Field1'' ''   '') = Map.empty"
    by (simp only: get) 
  from T [of gorm2 "tagged ''Field1'' ''a=1;b=2''"]
  have "\<forall>a w b F'. TrimSpace w = [] \<and> Name F' = Name (tagged ''Field1'' ''a=1;b=2'') \<and>
      StructTag_Get (Tag (tagged ''Field1'' ''a=1;b=2'')) (TaGo.Name gorm2) = a @ '';'' @ b \<and>
      StructTag_Get (Tag F') (TaGo.Name gorm2) = a @ '';'' @ w @ '';'' @ b \<longrightarrow>
      GetFromField gorm2 F' = GetFromField gorm2 (tagged ''Field1'' ''a=1;b=2'')"
    by (elim conjE)
  from this [rule_format, of "'' ''" "tagged ''Field1'' ''a=1; ;b=2''" "''a=1''" "''b=2''"] w1
  have c3: "GetFromField gorm2 (tagged ''Field1'' ''a=1; ;b=2'')
      = GetFromField gorm2 (tagged ''Field1'' ''a=1;b=2'')"
    by (simp add: get name)
  from T [of gorm2 "tagged ''Field1'' ''a=1''"]
  have "\<forall>a w F'. TrimSpace w = [] \<and> Name F' = Name (tagged ''Field1'' ''a=1'') \<and>
      StructTag_Get (Tag (tagged ''Field1'' ''a=1'')) (TaGo.Name gorm2) = a \<and>
      (StructTag_Get (Tag F') (TaGo.Name gorm2) = a @ '';'' @ w \<or>
       StructTag_Get (Tag F') (TaGo.Name gorm2) = w @ '';'' @ a) \<longrightarrow>
      GetFromField gorm2 F' = GetFromField gorm2 (tagged ''Field1'' ''a=1'')"
    by (elim conjE)
  from this [rule_format, of "'' ''" "tagged ''Field1'' ''a=1; ''" "''a=1''"] w1
  have c4: "GetFromField gorm2 (tagged ''Field1'' ''a=1; '')
      = GetFromField gorm2 (tagged ''Field1'' ''a=1'')"
    by (simp add: get name)
  have c5: "GetFromField gorm2 (tagged ''Field1'' ''a=1;b=2'') ''a=1'' = Some [''Field1'']"
    by code_simp
  from w1 c2 c3 c4 c5 show ?thesis by (intro conjI)
qed

text \<open>
  Claim C6. An instruction produced by parsing some raw tag, given back to the parser as the
  raw tag of a field, yields the index with exactly that instruction.
\<close>

theorem parsing_idempotent_on_normalized:
  assumes "i \<in> dom (GetFromField t F)"
    and "StructTag_Get (Tag F') (TaGo.Name t') = i"
  shows "GetFromField t' F' = [i \<mapsto> [Name F']]"
proof
  fix j
  from assms(1) obtain d
    where d: "d \<in> set (SplitSeq (StructTag_Get (Tag F) (TaGo.Name t)) (CHR '';''))"
      and i: "i = instructionString d" and ne: "i \<noteq> []"
    by (auto simp: GetFromField_dom)
  from d have "CHR '';'' \<notin> set d" by (rule SplitSeq_no_sep)
  then have "CHR '';'' \<notin> set i" unfolding i by (rule instructionString_no_semicolon)
  then have split: "SplitSeq i (CHR '';'') = [i]" by (rule SplitSeq_single)
  have norm: "instructionString i = i" unfolding i by (rule instructionString_idem)
  show "GetFromField t' F' j = [i \<mapsto> [Name F']] j"
    using ne by (auto simp: GetFromField_eq assms(2) split norm)
qed

theorem parsing_idempotent_on_normalized_witness:
  "''a=b = c'' \<in> dom (GetFromField gorm2 (tagged ''Field1'' ''preload; a = b = c '')) \<and>
   GetFromField gorm2 (tagged ''Field2'' ''a=b = c'') = [''a=b = c'' \<mapsto> [''Field2'']]"
proof -
  have "GetFromField gorm2 (tagged ''Field1'' ''preload; a = b = c '') ''a=b = c'' = Some [''Field1'']"
    by code_simp
  then have h: "''a=b = c'' \<in> dom (GetFromField gorm2 (tagged ''Field1'' ''preload; a = b = c ''))"
    by blast
  have g: "StructTag_Get (Tag (tagged ''Field2'' ''a=b = c'')) (TaGo.Name gorm2) = ''a=b = c''"
    by (simp add: tagged_def gorm2_def StructTag_Get_def)
  have "Name (tagged ''Field2'' ''a=b = c'') = ''Field2''" by (simp add: tagged_def)
  with parsing_idempotent_on_normalized [OF h g] h show ?thesis by simp
qed

text \<open>
  Claim C10. A directive is dropped exactly when its rejoined trimmed string is empty, that is
  when it has no \<^verbatim>\<open>=\<close> and is white space only. A directive with an empty key part before
  its \<^verbatim>\<open>=\<close> is kept: it is recorded as \<^verbatim>\<open>=\<close> followed by the trimmed value, with the
  empty string as \<^verbatim>\<open>Key()\<close> and the trimmed value as \<^verbatim>\<open>Value()\<close>.
\<close>

theorem empty_key_directive_is_kept:
  assumes "d \<in> set (SplitSeq (StructTag_Get (Tag F) (TaGo.Name t)) (CHR '';''))"
  shows "(instructionString d \<notin> dom (GetFromField t F) \<longleftrightarrow> instructionString d = []) \<and>
         (instructionString d = [] \<longleftrightarrow> CHR ''='' \<notin> set d \<and> TrimSpace d = []) \<and>
         (CHR ''='' \<in> set d \<and> TrimSpace (takeWhile (\<lambda>c. c \<noteq> CHR ''='') d) = [] \<longrightarrow>
            instructionString d = ''='' @ TrimSpace (tl (dropWhile (\<lambda>c. c \<noteq> CHR ''='') d)) \<and>
            instructionString d \<in> dom (GetFromField t F) \<and>
            Key (instructionString d) = Inr [] \<and>
            Value (instructionString d) = TrimSpace (tl (dropWhile (\<lambda>c. c \<noteq> CHR ''='') d)))"
proof (intro conjI impI)
  from assms show "instructionString d \<notin> dom (GetFromField t F) \<longleftrightarrow> instructionString d = []"
    by (auto simp: GetFromField_dom)
next
  show "instructionString d = [] \<longleftrightarrow> CHR ''='' \<notin> set d \<and> TrimSpace d = []"
    by (rule instructionString_empty)
next
  assume h: "CHR ''='' \<in> set d \<and> TrimSpace (takeWhile (\<lambda>c. c \<noteq> CHR ''='') d) = []"
  then show i: "instructionString d = ''='' @ TrimSpace (tl (dropWhile (\<lambda>c. c \<noteq> CHR ''='') d))"
    by (simp add: instructionString_eq)
  then have "instructionString d \<noteq> []" by simp
  with assms show "instructionString d \<in> dom (GetFromField t F)"
    by (auto simp: GetFromField_dom)
  from i show "Key (instructionString d) = Inr []"
    by (simp add: Key_eq TrimSpace_Nil)
  from h show "Value (instructionString d) = TrimSpace (tl (dropWhile (\<lambda>c. c \<noteq> CHR ''='') d))"
    by (simp add: Value_instructionString)
qed

theorem empty_key_directive_is_kept_witness:
  "'' = value'' \<in> set (SplitSeq (StructTag_Get (Tag (tagged ''Field1'' '' = value'')) (TaGo.Name gorm2)) (CHR '';'')) \<and>
   CHR ''='' \<in> set '' = value'' \<and>
   GetFromField gorm2 (tagged ''Field1'' '' = value'') ''=value'' = Some [''Field1''] \<and>
   ''=value'' \<in> dom (GetFromField gorm2 (tagged ''Field1'' '' = value'')) \<and>
   Key ''=value'' = Inr [] \<and> Value ''=value'' = ''value''"
proof -
  let ?F = "tagged ''Field1'' '' = value''"
  have "SplitSeq (StructTag_Get (Tag ?F) (TaGo.Name gorm2)) (CHR '';'') = ['' = value'']"
    by code_simp
  then have h: "'' = value'' \<in> set (SplitSeq (StructTag_Get (Tag ?F) (TaGo.Name gorm2)) (CHR '';''))"
    by simp
  have k: "TrimSpace (takeWhile (\<lambda>c. c \<noteq> CHR ''='') '' = value'') = []" by code_simp
  have v: "TrimSpace (tl (dropWhile (\<lambda>c. c \<noteq> CHR ''='') '' = value'')) = ''value''" by code_simp
  have e: "CHR ''='' \<in> set '' = value''" by simp
  have g: "GetFromField gorm2 ?F ''=value'' = Some [''Field1'']" by code_simp
  have n: "instructionString '' = value'' = ''=value''" by code_simp
  from empty_key_directive_is_kept [OF h, unfolded n] k v e
  have "''=value'' \<in> dom (GetFromField gorm2 ?F)"
    and "Key ''=value'' = Inr []"
    and "Value ''=value'' = ''value''"
    by simp_all
  with h e g show ?thesis by simp
qed

section \<open>The type walker\<close>

lemma typeToElem_eq:
  "typeToElem U (Some t) =
     Inr (let t1 = (if Kind (U t) = Ptr then Elem (U t) else t)
          in if Kind (U t1) = Slice
             then (let t2 = Elem (U t1) in if Kind (U t2) = Ptr then Elem (U t2) else t2)
             else t1)"
  by (simp add: typeToElem_def Elem_of_def Let_def)

lemma typeToElem_Struct: "Kind (U T) = Struct \<Longrightarrow> typeToElem U (Some T) = Inr T"
  by (simp add: typeToElem_eq)

text \<open>
  Claim C5. \<^verbatim>\<open>typeToElem\<close> is a function of the type and the descriptors only, and it returns a
  type for every (non-nil) type: it never reaches the panic of \<^verbatim>\<open>Elem()\<close>. It unwraps one
  pointer, then one slice, then one pointer inside that slice, and nothing more: a type
  that is neither a pointer nor a slice is returned unchanged, and \<open>T\<close>, \<open>*T\<close>, \<open>[]T\<close>
  and \<open>[]*T\<close> all give \<open>T\<close> when \<open>T\<close> is neither a pointer nor a slice; a second pointer
  (as in \<open>**T\<close>) stays.
\<close>

theorem typeToElem_unwraps_one_level_each:
  "(\<exists>T. typeToElem U (Some t) = Inr T) \<and>
   typeToElem U (Some t) =
     Inr (let t1 = (if Kind (U t) = Ptr then Elem (U t) else t)
          in if Kind (U t1) = Slice
             then (let t2 = Elem (U t1) in if Kind (U t2) = Ptr then Elem (U t2) else t2)
             else t1) \<and>
   (Kind (U t) \<noteq> Ptr \<and> Kind (U t) \<noteq> Slice \<longrightarrow> typeToElem U (Some t) = Inr t) \<and>
   (Kind (U t) = Ptr \<and> Kind (U (Elem (U t))) \<noteq> Slice \<longrightarrow>
      typeToElem U (Some t) = Inr (Elem (U t))) \<and>
   (Kind (U t) = Slice \<and> Kind (U (Elem (U t))) \<noteq> Ptr \<longrightarrow>
      typeToElem U (Some t) = Inr (Elem (U t))) \<and>
   (Kind (U t) = Slice \<and> Kind (U (Elem (U t))) = Ptr \<longrightarrow>
      typeToElem U (Some t) = Inr (Elem (U (Elem (U t)))))"
  by (simp add: typeToElem_eq Let_def)

theorem typeToElem_unwraps_one_level_each_witness:
  "Kind (exampleTypes 2) \<noteq> Ptr \<and> Kind (exampleTypes 2) \<noteq> Slice \<and>
   typeToElem exampleTypes (Some 2) = Inr 2 \<and>
   Kind (exampleTypes 0) \<noteq> Ptr \<and> Kind (exampleTypes 0) \<noteq> Slice \<and>
   typeToElem exampleTypes (Some 0) = Inr 0 \<and>
   Kind (exampleTypes 4) = Ptr \<and> Elem (exampleTypes 4) = 2 \<and>
   typeToElem exampleTypes (Some 4) = Inr 2 \<and>
   Kind (exampleTypes 8) = Slice \<and> Elem (exampleTypes 8) = 2 \<and>
   typeToElem exampleTypes (Some 8) = Inr 2 \<and>
   Kind (exampleTypes 7) = Slice \<and> Elem (exampleTypes 7) = 6 \<and> Kind (exampleTypes 6) = Ptr \<and>
   Elem (exampleTypes 6) = 5 \<and> typeToElem exampleTypes (Some 7) = Inr 5 \<and>
   Kind (exampleTypes 9) = Ptr \<and> Elem (exampleTypes 9) = 4 \<and>
   typeToElem exampleTypes (Some 9) = Inr 4"
proof -
  have k: "Kind (exampleTypes 2) = Struct" "Kind (exampleTypes 0) = Basic"
    "Kind (exampleTypes 4) = Ptr" "Elem (exampleTypes 4) = 2"
    "Kind (exampleTypes 8) = Slice" "Elem (exampleTypes 8) = 2"
    "Kind (exampleTypes 7) = Slice" "Elem (exampleTypes 7) = 6"
    "Kind (exampleTypes 6) = Ptr" "Elem (exampleTypes 6) = 5"
    "Kind (exampleTypes 9) = Ptr" "Elem (exampleTypes 9) = 4"
    by (simp_all add: exampleTypes_def struct_def basic_def pointer_def slice_def)
  note T = typeToElem_unwraps_one_level_each [of exampleTypes]
  from T [of 2] k have "typeToElem exampleTypes (Some 2) = Inr 2" by simp
  moreover from T [of 0] k have "typeToElem exampleTypes (Some 0) = Inr 0" by simp
  moreover from T [of 4] k have "typeToElem exampleTypes (Some 4) = Inr 2" by simp
  moreover from T [of 8] k have "typeToElem exampleTypes (Some 8) = Inr 2" by simp
  moreover from T [of 7] k have "typeToElem exampleTypes (Some 7) = Inr 5" by simp
  moreover from T [of 9] k have "typeToElem exampleTypes (Some 9) = Inr 4" by simp
  ultimately show ?thesis using k by simp
qed

section \<open>Merging and flat extraction\<close>

lemma concat_tags_dom: "dom (concat_tags t other pfx) = dom t \<union> dom other"
  by (auto simp: concat_tags_def dom_def split: option.splits)

lemma concat_tags_nonempty:
  assumes "\<forall>i names. t i = Some names \<longrightarrow> names \<noteq> []"
    and "\<forall>i names. other i = Some names \<longrightarrow> names \<noteq> []"
  shows "\<forall>i names. concat_tags t other pfx i = Some names \<longrightarrow> names \<noteq> []"
  using assms by (auto simp: concat_tags_def split: option.splits)

lemma namesOf_empty: "namesOf Map.empty i = {}"
  by (simp add: namesOf_def)

lemma namesOf_concat_tags:
  "namesOf (concat_tags t other pfx) i = namesOf t i \<union> (\<lambda>v. pfx @ v) ` namesOf other i"
  by (auto simp: namesOf_def concat_tags_def AddPrefix_def split: option.splits)

lemma namesOf_GetFromField:
  "namesOf (GetFromField t F) i = (if i \<in> dom (GetFromField t F) then {Name F} else {})"
  by (auto simp: namesOf_def dest: GetFromField_names split: option.splits)

lemma flat_dom:
  "dom (fold (\<lambda>modelField tags. concat_tags tags (GetFromField t modelField) pfx) fs tags)
     = dom tags \<union> (\<Union>F \<in> set fs. dom (GetFromField t F))"
  by (induction fs arbitrary: tags) (auto simp: concat_tags_dom)

lemma flat_nonempty:
  assumes "\<forall>i names. tags i = Some names \<longrightarrow> names \<noteq> []"
  shows "\<forall>i names. fold (\<lambda>modelField tags. concat_tags tags (GetFromField t modelField) pfx) fs tags i
           = Some names \<longrightarrow> names \<noteq> []"
  using assms
proof (induction fs arbitrary: tags)
  case Nil
  then show ?case by simp
next
  case (Cons F fs)
  have "\<forall>i names. GetFromField t F i = Some names \<longrightarrow> names \<noteq> []"
    by (auto dest: GetFromField_names)
  with Cons.prems
  have "\<forall>i names. concat_tags tags (GetFromField t F) pfx i = Some names \<longrightarrow> names \<noteq> []"
    by (rule concat_tags_nonempty)
  from Cons.IH [OF this] show ?case by simp
qed

lemma Get_record:
  assumes "typeToElem U (TypeOf model) = Inr T" and "Kind (U T) = Struct"
  shows "Get U t model =
           Inr (fold (\<lambda>modelField tags. concat_tags tags (GetFromField t modelField) [])
                  (Fields (U T)) Map.empty)"
  using assms by (simp add: Get_def NumField_def)

text \<open>
  Claim C8. For a record (a model whose unwrapped type is a struct), \<^verbatim>\<open>Get\<close> returns an index
  and \<^verbatim>\<open>Has\<close> returns whether the instruction is one of its keys; the keys are the
  instructions of the top-level fields, so an instruction that only fields of nested
  structs carry is not found.
\<close>

theorem Has_iff_key_of_flat_index:
  assumes "typeToElem U (TypeOf model) = Inr T" and "Kind (U T) = Struct"
  shows "\<exists>tags. Get U t model = Inr tags \<and>
           Has U t model i = Inr (i \<in> dom tags) \<and>
           (i \<in> dom tags \<longleftrightarrow> (\<exists>F \<in> set (Fields (U T)). i \<in> dom (GetFromField t F)))"
proof -
  let ?tags = "fold (\<lambda>modelField tags. concat_tags tags (GetFromField t modelField) [])
                 (Fields (U T)) Map.empty"
  have g: "Get U t model = Inr ?tags" using assms by (rule Get_record)
  then have "Has U t model i = Inr (i \<in> dom ?tags)" by (auto simp: Has_def)
  moreover have "i \<in> dom ?tags \<longleftrightarrow> (\<exists>F \<in> set (Fields (U T)). i \<in> dom (GetFromField t F))"
    by (simp add: flat_dom)
  ultimately show ?thesis using g by blast
qed

theorem Has_iff_key_of_flat_index_witness:
  "typeToElem exampleTypes (TypeOf (interface_of 4)) = Inr 2 \<and> Kind (exampleTypes 2) = Struct \<and>
   Has exampleTypes gorm2 (interface_of 4) ''preload=true'' = Inr True \<and>
   Has exampleTypes gorm2 (interface_of 4) ''otherOption=value2'' = Inr False \<and>
   (\<exists>nested. GetNested 2 exampleTypes gorm2 (interface_of 4) ''.'' = Some (Inr nested) \<and>
      nested ''otherOption=value2'' = Some [''Field3.Subfield1''])"
proof -
  have ty: "typeToElem exampleTypes (TypeOf (interface_of 4)) = Inr 2" by code_simp
  have k: "Kind (exampleTypes 2) = Struct" by code_simp
  have fs: "Fields (exampleTypes 2) =
      [field ''Field1'' 0 ''preload=true;otherOption=value'', untagged ''Field2'' 1,
       field ''Field3'' 3 ''preload=true'']"
    by (simp add: exampleTypes_def struct_def)
  have d1: "GetFromField gorm2 (field ''Field1'' 0 ''preload=true;otherOption=value'') ''preload=true''
      = Some [''Field1'']" by code_simp
  have n1: "GetFromField gorm2 (field ''Field1'' 0 ''preload=true;otherOption=value'') ''otherOption=value2''
      = None" by code_simp
  have n2: "GetFromField gorm2 (untagged ''Field2'' 1) ''otherOption=value2'' = None" by code_simp
  have n3: "GetFromField gorm2 (field ''Field3'' 3 ''preload=true'') ''otherOption=value2'' = None"
    by code_simp
  from Has_iff_key_of_flat_index [OF ty k, of gorm2 "''preload=true''"] fs d1
  have h1: "Has exampleTypes gorm2 (interface_of 4) ''preload=true'' = Inr True"
    by (auto simp: dom_def)
  from Has_iff_key_of_flat_index [OF ty k, of gorm2 "''otherOption=value2''"] fs n1 n2 n3
  have h2: "Has exampleTypes gorm2 (interface_of 4) ''otherOption=value2'' = Inr False"
    by (auto simp: dom_def)
  have "case GetNested 2 exampleTypes gorm2 (interface_of 4) ''.'' of
          Some (Inr nested) \<Rightarrow> nested ''otherOption=value2'' = Some [''Field3.Subfield1'']
        | _ \<Rightarrow> False"
    by code_simp
  then have "\<exists>nested. GetNested 2 exampleTypes gorm2 (interface_of 4) ''.'' = Some (Inr nested) \<and>
      nested ''otherOption=value2'' = Some [''Field3.Subfield1'']"
    by (auto split: option.splits sum.splits)
  with ty k h1 h2 show ?thesis by simp
qed

section \<open>Nested extraction\<close>

lemma getNested_fields_Cons:
  "getNested_fields recurse U t T pfx sep (E # rest) tags =
     (case nestedType U T E of
        None \<Rightarrow> getNested_fields recurse U t T pfx sep rest
                  (concat_tags tags (GetFromField t E) pfx)
      | Some T' \<Rightarrow>
          (case recurse (interface_of T') (pfx @ Name E @ sep) of
             None \<Rightarrow> None
           | Some (Inl e) \<Rightarrow> Some (Inl e)
           | Some (Inr nested) \<Rightarrow>
               getNested_fields recurse U t T pfx sep rest
                 (concat_tags (concat_tags tags (GetFromField t E) pfx) nested [])))"
  by (simp add: nestedType_def typeToElem_eq Let_def)

lemma getNested_Suc:
  assumes "typeToElem U (TypeOf model) = Inr T" and "Kind (U T) = Struct"
  shows "getNested (Suc depth) U t model pfx sep =
           getNested_fields (\<lambda>m p. getNested depth U t m p sep) U t T pfx sep
             (Fields (U T)) Map.empty"
  using assms by (simp add: NumField_def)

lemma getNested_fields_flat:
  assumes "\<forall>E \<in> set fs. nestedType U T E = None"
  shows "getNested_fields recurse U t T pfx sep fs tags =
           Some (Inr (fold (\<lambda>modelField tags. concat_tags tags (GetFromField t modelField) pfx)
                        fs tags))"
  using assms
proof (induction fs arbitrary: tags)
  case Nil
  then show ?case by simp
next
  case (Cons E fs)
  then show ?case by (simp add: getNested_fields_Cons del: getNested_fields.simps)
qed

text \<open>
  What the guard of line 185 tests is the equality of the two \<^verbatim>\<open>String()\<close> texts: the
  loop does not descend into a field exactly when its unwrapped type prints like the type
  being traversed, or is not a struct.
\<close>

lemma nestedType_None_iff:
  assumes "typeToElem U (Some (Type E)) = Inr T'"
  shows "nestedType U T E = None \<longleftrightarrow> String (U T') = String (U T) \<or> Kind (U T') \<noteq> Struct"
  using assms by (auto simp: nestedType_def)

text \<open>
  A run that returns with room for \<open>d\<close> calls on the stack returns the same with room
  for more: the bound only decides whether the run ends.
\<close>

lemma getNested_fields_more_stack:
  assumes "\<forall>m p r. recurse m p = Some r \<longrightarrow> recurse' m p = Some r"
    and "getNested_fields recurse U t T pfx sep fs tags = Some r"
  shows "getNested_fields recurse' U t T pfx sep fs tags = Some r"
  using assms(2)
proof (induction fs arbitrary: tags)
  case Nil
  then show ?case by simp
next
  case (Cons E fs)
  show ?case
  proof (cases "nestedType U T E")
    case None
    with Cons show ?thesis
      by (simp add: getNested_fields_Cons del: getNested_fields.simps)
  next
    case (Some T')
    with Cons.prems obtain x where x: "recurse (interface_of T') (pfx @ Name E @ sep) = Some x"
      by (auto simp: getNested_fields_Cons simp del: getNested_fields.simps split: option.splits)
    with assms(1) have x': "recurse' (interface_of T') (pfx @ Name E @ sep) = Some x" by blast
    show ?thesis
    proof (cases x)
      case (Inl e)
      with Cons.prems Some x have "r = Inl e"
        by (simp add: getNested_fields_Cons del: getNested_fields.simps)
      with Some x' Inl show ?thesis
        by (simp add: getNested_fields_Cons del: getNested_fields.simps)
    next
      case (Inr nested)
      with Cons.prems Some x
      have "getNested_fields recurse U t T pfx sep fs
              (concat_tags (concat_tags tags (GetFromField t E) pfx) nested []) = Some r"
        by (simp add: getNested_fields_Cons del: getNested_fields.simps)
      from Cons.IH [OF this] Some x' Inr show ?thesis
        by (simp add: getNested_fields_Cons del: getNested_fields.simps)
    qed
  qed
qed

lemma getNested_more_stack:
  "getNested d U t model pfx sep = Some r \<Longrightarrow> getNested (Suc d) U t model pfx sep = Some r"
proof (induction d arbitrary: model pfx r)
  case 0
  then show ?case by simp
next
  case (Suc d)
  have step: "\<forall>m p r. getNested d U t m p sep = Some r \<longrightarrow> getNested (Suc d) U t m p sep = Some r"
    using Suc.IH by blast
  show ?case
  proof (cases "typeToElem U (TypeOf model)")
    case (Inl e)
    with Suc.prems show ?thesis by simp
  next
    case (Inr T)
    show ?thesis
    proof (cases "NumField U T")
      case (Inl e)
      with Suc.prems \<open>typeToElem U (TypeOf model) = Inr T\<close> show ?thesis by simp
    next
      case n: (Inr n)
      with Suc.prems Inr
      have "getNested_fields (\<lambda>m p. getNested d U t m p sep) U t T pfx sep
              (Fields (U T)) Map.empty = Some r"
        by simp
      from getNested_fields_more_stack [OF step this] Inr n
      show ?thesis by (simp del: getNested_fields.simps)
    qed
  qed
qed

text \<open>
  Direct self-reference. When the unwrapped type of every field of the record that is a
  struct is the record type itself, \<^verbatim>\<open>GetNested\<close> returns with room for a single call of
  \<^verbatim>\<open>getNested\<close> on the stack (and with any more), it descends into no field, and its
  result is the index of the flat extraction \<^verbatim>\<open>Get\<close>: the directives of the top-level
  fields only.
\<close>

lemma GetNested_self_reference_flat:
  assumes "typeToElem U (TypeOf model) = Inr T" and "Kind (U T) = Struct"
    and "\<forall>E \<in> set (Fields (U T)). \<forall>T'. typeToElem U (Some (Type E)) = Inr T' \<longrightarrow>
           Kind (U T') = Struct \<longrightarrow> T' = T"
  shows "\<exists>tags. GetNested (Suc depth) U t model sep = Some (Inr tags) \<and>
            Get U t model = Inr tags \<and>
            (\<forall>i. i \<in> dom tags \<longleftrightarrow> (\<exists>F \<in> set (Fields (U T)). i \<in> dom (GetFromField t F))) \<and>
            (\<forall>i. namesOf tags i = {Name F | F. F \<in> set (Fields (U T)) \<and> i \<in> dom (GetFromField t F)})"
proof -
  let ?tags = "fold (\<lambda>modelField tags. concat_tags tags (GetFromField t modelField) [])
                 (Fields (U T)) Map.empty"
  have skip: "nestedType U T E = None" if "E \<in> set (Fields (U T))" for E
  proof -
    obtain T' where T': "typeToElem U (Some (Type E)) = Inr T'"
      by (auto simp: typeToElem_eq)
    with assms(3) that have "Kind (U T') = Struct \<longrightarrow> T' = T" by blast
    with T' show ?thesis by (auto simp: nestedType_def)
  qed
  then have "getNested_fields (\<lambda>m p. getNested depth U t m p sep) U t T [] sep
               (Fields (U T)) Map.empty = Some (Inr ?tags)"
    by (intro getNested_fields_flat) blast
  with assms(1,2) have n: "GetNested (Suc depth) U t model sep = Some (Inr ?tags)"
    by (simp add: GetNested_def getNested_Suc del: getNested.simps)
  have g: "Get U t model = Inr ?tags" using assms(1,2) by (rule Get_record)
  have d: "\<forall>i. i \<in> dom ?tags \<longleftrightarrow> (\<exists>F \<in> set (Fields (U T)). i \<in> dom (GetFromField t F))"
    by (simp add: flat_dom)
  have names: "namesOf (fold (\<lambda>modelField tags. concat_tags tags (GetFromField t modelField) [])
                    fs tags) i
      = namesOf tags i \<union> {Name F | F. F \<in> set fs \<and> i \<in> dom (GetFromField t F)}" for fs tags i
    by (induction fs arbitrary: tags) (auto simp: namesOf_concat_tags namesOf_GetFromField)
  have "\<forall>i. namesOf ?tags i = {Name F | F. F \<in> set (Fields (U T)) \<and> i \<in> dom (GetFromField t F)}"
    by (simp add: names namesOf_empty)
  with n g d show ?thesis by blast
qed

lemma GetNested_self_reference_example:
  "typeToElem exampleTypes (TypeOf (interface_of 6)) = Inr 5 \<and> Kind (exampleTypes 5) = Struct \<and>
   map (\<lambda>E. typeToElem exampleTypes (Some (Type E))) (Fields (exampleTypes 5))
     = [Inr 0, Inr 5, Inr 5] \<and>
   Kind (exampleTypes 0) = Basic \<and>
   (\<exists>tags. GetNested 1 exampleTypes gorm2 (interface_of 6) ''.'' = Some (Inr tags) \<and>
      tags ''preload'' = Some [''Next'', ''Children''] \<and> tags ''index'' = Some [''Label''] \<and>
      ''Next.Label'' \<notin> namesOf tags ''index'')"
proof -
  have ty: "typeToElem exampleTypes (TypeOf (interface_of 6)) = Inr 5" by code_simp
  have k: "Kind (exampleTypes 5) = Struct" by code_simp
  have fs: "Fields (exampleTypes 5) =
      [field ''Label'' 0 ''index'', field ''Next'' 6 ''preload'', field ''Children'' 7 ''preload'']"
    by (simp add: exampleTypes_def struct_def)
  have e: "typeToElem exampleTypes (Some 0) = Inr 0" "typeToElem exampleTypes (Some 6) = Inr 5"
    "typeToElem exampleTypes (Some 7) = Inr 5" "Kind (exampleTypes 0) = Basic"
    by code_simp+
  have self: "\<forall>E \<in> set (Fields (exampleTypes 5)). \<forall>T'.
      typeToElem exampleTypes (Some (Type E)) = Inr T' \<longrightarrow> Kind (exampleTypes T') = Struct \<longrightarrow> T' = 5"
    using e by (auto simp: fs field_def)
  have g: "case Get exampleTypes gorm2 (interface_of 6) of
             Inr tags \<Rightarrow> tags ''preload'' = Some [''Next'', ''Children''] \<and>
                         tags ''index'' = Some [''Label'']
           | Inl e \<Rightarrow> False"
    by code_simp
  from GetNested_self_reference_flat [OF ty k self, of 0 gorm2 "''.''"]
  obtain tags where tags: "GetNested 1 exampleTypes gorm2 (interface_of 6) ''.'' = Some (Inr tags)"
    "Get exampleTypes gorm2 (interface_of 6) = Inr tags" by auto
  with g have v: "tags ''preload'' = Some [''Next'', ''Children'']" "tags ''index'' = Some [''Label'']"
    by simp_all
  then have n: "''Next.Label'' \<notin> namesOf tags ''index''" by (simp add: namesOf_def)
  have "map (\<lambda>E. typeToElem exampleTypes (Some (Type E))) (Fields (exampleTypes 5))
     = [Inr 0, Inr 5, Inr 5]"
    using e by (simp add: fs field_def)
  then show ?thesis using ty k e(4) tags(1) v n by blast
qed

text \<open>
  The guard is not a test of identity. The field \<^verbatim>\<open>Owner\<close> of the first \<^verbatim>\<open>User\<close> has a
  struct type that is another type and prints the same, and the loop does not descend
  into it.
\<close>

lemma skipped_without_being_identical:
  "\<not> (\<forall>U T E T'. typeToElem U (Some (Type E)) = Inr T' \<and> Kind (U T') = Struct \<and>
         nestedType U T E = None \<longrightarrow> T' = T)"
proof
  assume a: "\<forall>U T E T'. typeToElem U (Some (Type E)) = Inr T' \<and> Kind (U T') = Struct \<and>
         nestedType U T E = None \<longrightarrow> T' = T"
  have "typeToElem sameNameTypes (Some (Type (field ''Owner'' 2 ''preload''))) = Inr 2"
    and "Kind (sameNameTypes 2) = Struct"
    and "nestedType sameNameTypes 1 (field ''Owner'' 2 ''preload'') = None"
    by code_simp+
  with a have "(2::nat) = 1" by blast
  then show False by simp
qed

text \<open>
  Claim C2. The claim has the descent into a struct-typed field skipped exactly when the
  field's unwrapped type is the type being traversed; line 185 compares the two
  \<^verbatim>\<open>String()\<close> texts instead. On the two \<^verbatim>\<open>User\<close> types above, which are distinct and
  print the same, \<^verbatim>\<open>GetNested\<close> on the first returns without descending into \<^verbatim>\<open>Owner\<close>:
  the directive \<^verbatim>\<open>unique\<close> of \<^verbatim>\<open>Owner.Email\<close> is missing from the index, although
  \<^verbatim>\<open>GetNested\<close> on the second type finds it. With the second package named otherwise, and
  nothing else changed, the index lists \<^verbatim>\<open>Owner.Email\<close> under \<^verbatim>\<open>unique\<close>.
\<close>

theorem GetNested_skips_distinct_type_of_same_String:
  "Kind (sameNameTypes 1) = Struct \<and> Kind (sameNameTypes 2) = Struct \<and>
   typeToElem sameNameTypes (Some (Type (field ''Owner'' 2 ''preload''))) = Inr 2 \<and>
   (2::Type) \<noteq> 1 \<and>
   String (sameNameTypes 2) = String (sameNameTypes 1) \<and>
   nestedType sameNameTypes 1 (field ''Owner'' 2 ''preload'') = None \<and>
   (\<exists>tags. GetNested 3 sameNameTypes gorm2 (interface_of 1) ''.'' = Some (Inr tags) \<and>
      tags ''index'' = Some [''Name''] \<and> tags ''preload'' = Some [''Owner''] \<and>
      tags ''unique'' = None) \<and>
   (\<exists>tags. GetNested 3 sameNameTypes gorm2 (interface_of 2) ''.'' = Some (Inr tags) \<and>
      tags ''unique'' = Some [''Email'']) \<and>
   (\<exists>tags. GetNested 3 otherNameTypes gorm2 (interface_of 1) ''.'' = Some (Inr tags) \<and>
      tags ''index'' = Some [''Name''] \<and> tags ''preload'' = Some [''Owner''] \<and>
      tags ''unique'' = Some [''Owner.Email''])"
proof -
  have k: "Kind (sameNameTypes 1) = Struct" "Kind (sameNameTypes 2) = Struct"
    "typeToElem sameNameTypes (Some (Type (field ''Owner'' 2 ''preload''))) = Inr 2"
    "String (sameNameTypes 2) = String (sameNameTypes 1)"
    "nestedType sameNameTypes 1 (field ''Owner'' 2 ''preload'') = None"
    by code_simp+
  have "case GetNested 3 sameNameTypes gorm2 (interface_of 1) ''.'' of
          Some (Inr tags) \<Rightarrow> tags ''index'' = Some [''Name''] \<and>
            tags ''preload'' = Some [''Owner''] \<and> tags ''unique'' = None
        | _ \<Rightarrow> False"
    by code_simp
  then have a: "\<exists>tags. GetNested 3 sameNameTypes gorm2 (interface_of 1) ''.'' = Some (Inr tags) \<and>
      tags ''index'' = Some [''Name''] \<and> tags ''preload'' = Some [''Owner''] \<and>
      tags ''unique'' = None"
    by (auto split: option.splits sum.splits)
  have "case GetNested 3 sameNameTypes gorm2 (interface_of 2) ''.'' of
          Some (Inr tags) \<Rightarrow> tags ''unique'' = Some [''Email''] | _ \<Rightarrow> False"
    by code_simp
  then have b: "\<exists>tags. GetNested 3 sameNameTypes gorm2 (interface_of 2) ''.'' = Some (Inr tags) \<and>
      tags ''unique'' = Some [''Email'']"
    by (auto split: option.splits sum.splits)
  have "case GetNested 3 otherNameTypes gorm2 (interface_of 1) ''.'' of
          Some (Inr tags) \<Rightarrow> tags ''index'' = Some [''Name''] \<and>
            tags ''preload'' = Some [''Owner''] \<and> tags ''unique'' = Some [''Owner.Email'']
        | _ \<Rightarrow> False"
    by code_simp
  then have c: "\<exists>tags. GetNested 3 otherNameTypes gorm2 (interface_of 1) ''.'' = Some (Inr tags) \<and>
      tags ''index'' = Some [''Name''] \<and> tags ''preload'' = Some [''Owner''] \<and>
      tags ''unique'' = Some [''Owner.Email'']"
    by (auto split: option.splits sum.splits)
  have d: "(2::Type) \<noteq> 1" by simp
  from k d a b c show ?thesis by (intro conjI)
qed

lemma getNested_fields_nonempty:
  assumes "\<forall>m p r. recurse m p = Some (Inr r) \<longrightarrow> (\<forall>i names. r i = Some names \<longrightarrow> names \<noteq> [])"
    and "\<forall>i names. tags i = Some names \<longrightarrow> names \<noteq> []"
    and "getNested_fields recurse U t T pfx sep fs tags = Some (Inr r)"
  shows "\<forall>i names. r i = Some names \<longrightarrow> names \<noteq> []"
  using assms(2,3)
proof (induction fs arbitrary: tags)
  case Nil
  then show ?case by simp
next
  case (Cons E fs)
  have own: "\<forall>i names. GetFromField t E i = Some names \<longrightarrow> names \<noteq> []"
    by (auto dest: GetFromField_names)
  with Cons.prems(1)
  have t1: "\<forall>i names. concat_tags tags (GetFromField t E) pfx i = Some names \<longrightarrow> names \<noteq> []"
    by (rule concat_tags_nonempty)
  show ?case
  proof (cases "nestedType U T E")
    case None
    with Cons.prems(2)
    have "getNested_fields recurse U t T pfx sep fs (concat_tags tags (GetFromField t E) pfx)
            = Some (Inr r)"
      by (simp add: getNested_fields_Cons del: getNested_fields.simps)
    from Cons.IH [OF t1 this] show ?thesis .
  next
    case (Some T')
    with Cons.prems(2) obtain nested
      where rec: "recurse (interface_of T') (pfx @ Name E @ sep) = Some (Inr nested)"
        and rest: "getNested_fields recurse U t T pfx sep fs
                     (concat_tags (concat_tags tags (GetFromField t E) pfx) nested []) = Some (Inr r)"
      by (auto simp: getNested_fields_Cons simp del: getNested_fields.simps
          split: option.splits sum.splits)
    from rec assms(1) have "\<forall>i names. nested i = Some names \<longrightarrow> names \<noteq> []" by blast
    with t1 have "\<forall>i names. concat_tags (concat_tags tags (GetFromField t E) pfx) nested [] i
        = Some names \<longrightarrow> names \<noteq> []"
      by (rule concat_tags_nonempty)
    from Cons.IH [OF this rest] show ?thesis .
  qed
qed

lemma getNested_nonempty:
  "getNested depth U t model pfx sep = Some (Inr r) \<Longrightarrow> \<forall>i names. r i = Some names \<longrightarrow> names \<noteq> []"
proof (induction depth arbitrary: model pfx r)
  case 0
  then show ?case by simp
next
  case (Suc depth)
  from Suc.prems obtain T
    where "getNested_fields (\<lambda>m p. getNested depth U t m p sep) U t T pfx sep
             (Fields (U T)) Map.empty = Some (Inr r)"
    by (auto split: sum.splits)
  moreover have "\<forall>m p r. getNested depth U t m p sep = Some (Inr r) \<longrightarrow>
      (\<forall>i names. r i = Some names \<longrightarrow> names \<noteq> [])"
    using Suc.IH by blast
  moreover have "\<forall>i names. (Map.empty :: Instructions) i = Some names \<longrightarrow> names \<noteq> []" by simp
  ultimately show ?case
    using getNested_fields_nonempty
      [of "\<lambda>m p. getNested depth U t m p sep" Map.empty U t T pfx sep "Fields (U T)" r]
    by blast
qed

lemma count_calls: "fold (\<lambda>f n. Suc n) names (k::nat) = k + length names"
  by (induction names arbitrary: k) auto

text \<open>
  Claim C9. A key of an index returned by \<^verbatim>\<open>GetFromField\<close>, \<^verbatim>\<open>Get\<close> or \<^verbatim>\<open>GetNested\<close> has a
  non-empty list of field names, so \<^verbatim>\<open>ApplyOne\<close> for that key, and \<^verbatim>\<open>Apply\<close> with a mapping
  that binds it, run the action as many times as the list is long, which is at least once
  (the action here counts its calls).
\<close>

theorem index_lists_are_nonempty:
  assumes "tags i = Some names"
    and "tags = GetFromField t F \<or> Get U t model = Inr tags \<or>
         GetNested depth U t model sep = Some (Inr tags)"
  shows "names \<noteq> [] \<and> ApplyOne t i tags (\<lambda>f n. Suc n) (0::nat) = length names \<and>
         0 < ApplyOne t i tags (\<lambda>f n. Suc n) (0::nat) \<and>
         Apply t tags [(i, \<lambda>f n. Suc n)] (0::nat) = length names"
proof -
  from assms(2) have "\<forall>i names. tags i = Some names \<longrightarrow> names \<noteq> []"
  proof (elim disjE)
    assume "tags = GetFromField t F"
    then show ?thesis by (auto dest: GetFromField_names)
  next
    assume g: "Get U t model = Inr tags"
    then obtain T
      where tags: "tags = fold (\<lambda>modelField tags. concat_tags tags (GetFromField t modelField) [])
                            (Fields (U T)) Map.empty"
      by (auto simp: Get_def split: sum.splits)
    have "\<forall>i names. (Map.empty :: Instructions) i = Some names \<longrightarrow> names \<noteq> []" by simp
    then show ?thesis unfolding tags by (rule flat_nonempty)
  next
    assume "GetNested depth U t model sep = Some (Inr tags)"
    then show ?thesis unfolding GetNested_def by (rule getNested_nonempty)
  qed
  with assms(1) have "names \<noteq> []" by blast
  moreover from assms(1) have "ApplyOne t i tags (\<lambda>f n. Suc n) (0::nat) = length names"
    by (simp add: ApplyOne_def count_calls)
  moreover from assms(1) have "Apply t tags [(i, \<lambda>f n. Suc n)] (0::nat) = length names"
    by (simp add: Apply_def count_calls)
  ultimately show ?thesis by simp
qed

theorem index_lists_are_nonempty_witness:
  "GetFromField gorm2 (field ''Field1'' 0 ''preload=true;otherOption=value'') ''preload=true''
     = Some [''Field1''] \<and>
   ApplyOne gorm2 ''preload=true''
     (GetFromField gorm2 (field ''Field1'' 0 ''preload=true;otherOption=value''))
     (\<lambda>f n. Suc n) (0::nat) = 1 \<and>
   (\<exists>tags. Get exampleTypes gorm2 (interface_of 4) = Inr tags \<and>
      tags ''preload=true'' = Some [''Field1'', ''Field3''] \<and>
      ApplyOne gorm2 ''preload=true'' tags (\<lambda>f n. Suc n) (0::nat) = 2) \<and>
   (\<exists>tags. GetNested 2 exampleTypes gorm2 (interface_of 4) ''.'' = Some (Inr tags) \<and>
      tags ''preload=true'' = Some [''Field1'', ''Field3'', ''Field3.Subfield1''] \<and>
      ApplyOne gorm2 ''preload=true'' tags (\<lambda>f n. Suc n) (0::nat) = 3)"
proof -
  let ?F = "field ''Field1'' 0 ''preload=true;otherOption=value''"
  have a: "GetFromField gorm2 ?F ''preload=true'' = Some [''Field1'']" by code_simp
  from index_lists_are_nonempty [where tags = "GetFromField gorm2 ?F" and i = "''preload=true''"
      and t = gorm2 and F = ?F, OF a]
  have a': "ApplyOne gorm2 ''preload=true'' (GetFromField gorm2 ?F) (\<lambda>f n. Suc n) (0::nat) = 1"
    by simp
  have "case Get exampleTypes gorm2 (interface_of 4) of
          Inr tags \<Rightarrow> tags ''preload=true'' = Some [''Field1'', ''Field3''] | Inl e \<Rightarrow> False"
    by code_simp
  then obtain g where g: "Get exampleTypes gorm2 (interface_of 4) = Inr g"
    "g ''preload=true'' = Some [''Field1'', ''Field3'']"
    by (auto split: sum.splits)
  from index_lists_are_nonempty [where tags = g and i = "''preload=true''" and t = gorm2
      and U = exampleTypes and model = "interface_of 4", OF g(2)] g(1)
  have g': "ApplyOne gorm2 ''preload=true'' g (\<lambda>f n. Suc n) (0::nat) = 2" by simp
  have "case GetNested 2 exampleTypes gorm2 (interface_of 4) ''.'' of
          Some (Inr tags) \<Rightarrow> tags ''preload=true'' = Some [''Field1'', ''Field3'', ''Field3.Subfield1'']
        | _ \<Rightarrow> False"
    by code_simp
  then obtain n where n: "GetNested 2 exampleTypes gorm2 (interface_of 4) ''.'' = Some (Inr n)"
    "n ''preload=true'' = Some [''Field1'', ''Field3'', ''Field3.Subfield1'']"
    by (auto split: option.splits sum.splits)
  from index_lists_are_nonempty [where tags = n and i = "''preload=true''" and t = gorm2
      and U = exampleTypes and model = "interface_of 4" and depth = 2 and sep = "''.''", OF n(2)] n(1)
  have n': "ApplyOne gorm2 ''preload=true'' n (\<lambda>f n. Suc n) (0::nat) = 3" by simp
  from a a' g g' n n' show ?thesis by blast
qed

section \<open>Dispatch\<close>

lemma traced_action:
  "fold (\<lambda>f (calls, s). (calls @ [(i, f)], action f s)) fs (calls, s)
     = (calls @ map (Pair i) fs, fold action fs s)"
  by (induction fs arbitrary: calls s) auto

lemma Apply_traced:
  "Apply t ins (traced m) (calls, s) =
     (calls @ List.concat (map (\<lambda>(i, action). case ins i of None \<Rightarrow> [] | Some fs \<Rightarrow> map (Pair i) fs) m),
      Apply t ins m s)"
proof (induction m arbitrary: calls s)
  case Nil
  then show ?case by (simp add: Apply_def traced_def)
next
  case (Cons e m)
  obtain i action where e: "e = (i, action)" by (cases e)
  have step: "Apply t ins (traced (e # m)) (calls, s)
      = Apply t ins (traced m)
          (case ins i of None \<Rightarrow> (calls, s)
           | Some fs \<Rightarrow> fold (\<lambda>f (calls, s). (calls @ [(i, f)], action f s)) fs (calls, s))"
    by (simp add: Apply_def traced_def e)
  have step': "Apply t ins (e # m) s
      = Apply t ins m (case ins i of None \<Rightarrow> s | Some fs \<Rightarrow> fold action fs s)"
    by (simp add: Apply_def e)
  show ?case
  proof (cases "ins i")
    case None
    with step step' Cons.IH [of calls s] show ?thesis by (simp add: e)
  next
    case (Some fs)
    with step step' Cons.IH [of "calls @ map (Pair i) fs" "fold action fs s"]
    show ?thesis by (simp add: e traced_action)
  qed
qed

lemma calls_of_instruction:
  assumes "distinct (map fst m)"
  shows "filter (\<lambda>(j, f). j = i)
           (List.concat (map (\<lambda>(i, action). case ins i of None \<Rightarrow> [] | Some fs \<Rightarrow> map (Pair i) fs) m))
         = (case (map_of m i, ins i) of (Some action, Some fs) \<Rightarrow> map (Pair i) fs | _ \<Rightarrow> [])"
  using assms
proof (induction m)
  case Nil
  then show ?case by simp
next
  case (Cons e m)
  obtain j action where e: "e = (j, action)" by (cases e)
  have other: "filter (\<lambda>(j', f). j' = i) (map (Pair j) fs) = (if j = i then map (Pair j) fs else [])"
    for fs :: "FieldName list"
    by (induction fs) auto
  show ?case
  proof (cases "j = i")
    case True
    with Cons.prems e have "map_of m i = None" by (auto simp: map_of_eq_None_iff)
    with Cons True e show ?thesis by (auto simp: other split: option.splits)
  next
    case False
    with Cons e show ?thesis by (auto simp: other split: option.splits)
  qed
qed

text \<open>
  Claim C7. Run with the mapping whose actions also write down their calls, \<^verbatim>\<open>Apply\<close> changes
  the caller's state as it does with the mapping itself, and the calls it makes are, entry
  by entry of the mapping in the order the loop visits them, one call per field name of
  the entry's instruction in the index, in the order of that list, and none when the
  instruction is not in the index. So for every instruction \<open>i\<close> the calls of the action
  bound to \<open>i\<close> are exactly the field names under \<open>i\<close>, once each and in order, when \<open>i\<close>
  is in the mapping and in the index, and there is none otherwise. \<^verbatim>\<open>Apply\<close> is
  \<^verbatim>\<open>ApplyOne\<close> for every entry of the mapping.
\<close>

theorem Apply_calls_once_per_field:
  assumes "distinct (map fst m)"
  shows "snd (Apply t ins (traced m) ([], s)) = Apply t ins m s \<and>
         fst (Apply t ins (traced m) ([], s)) =
           List.concat (map (\<lambda>(i, action). case ins i of None \<Rightarrow> [] | Some fs \<Rightarrow> map (Pair i) fs) m) \<and>
         filter (\<lambda>(j, f). j = i) (fst (Apply t ins (traced m) ([], s))) =
           (case (map_of m i, ins i) of
              (Some action, Some fs) \<Rightarrow> map (Pair i) fs
            | _ \<Rightarrow> []) \<and>
         Apply t ins m s = fold (\<lambda>(i, action). ApplyOne t i ins action) m s"
proof -
  have "Apply t ins m s = fold (\<lambda>(i, action). ApplyOne t i ins action) m s"
    unfolding Apply_def ApplyOne_def
    by (rule arg_cong [where f = "\<lambda>g. fold g m s"]) (auto simp: fun_eq_iff)
  with calls_of_instruction [OF assms, of i ins] show ?thesis
    by (simp add: Apply_traced)
qed

theorem Apply_calls_once_per_field_witness:
  "distinct (map fst
     [(''preload=true'', \<lambda>f s. (''preload '' @ f) # s),
      (''absent'', \<lambda>f s. (''absent '' @ f) # s),
      (''otherOption=value'', \<lambda>f s. (''other '' @ f) # s)]) \<and>
   Apply gorm2
     [''preload=true'' \<mapsto> [''Field1'', ''Field3''], ''otherOption=value'' \<mapsto> [''Field1''],
      ''unmapped'' \<mapsto> [''Field2'']]
     (traced
        [(''preload=true'', \<lambda>f s. (''preload '' @ f) # s),
         (''absent'', \<lambda>f s. (''absent '' @ f) # s),
         (''otherOption=value'', \<lambda>f s. (''other '' @ f) # s)])
     ([], [])
   = ([(''preload=true'', ''Field1''), (''preload=true'', ''Field3''),
       (''otherOption=value'', ''Field1'')],
      [''other Field1'', ''preload Field3'', ''preload Field1''])"
proof -
  let ?m = "[(''preload=true'', \<lambda>f s. (''preload '' @ f) # s),
      (''absent'', \<lambda>f s. (''absent '' @ f) # s),
      (''otherOption=value'', \<lambda>f (s :: string list). (''other '' @ f) # s)]"
  let ?ins = "[''preload=true'' \<mapsto> [''Field1'', ''Field3''], ''otherOption=value'' \<mapsto> [''Field1''],
      ''unmapped'' \<mapsto> [''Field2'']]"
  have d: "distinct (map fst ?m)" by simp
  have "Apply gorm2 ?ins ?m [] = [''other Field1'', ''preload Field3'', ''preload Field1'']"
    by (simp add: Apply_def)
  with Apply_calls_once_per_field [OF d, of gorm2 ?ins "[]" "''preload=true''"]
  have "fst (Apply gorm2 ?ins (traced ?m) ([], [])) =
      [(''preload=true'', ''Field1''), (''preload=true'', ''Field3''),
       (''otherOption=value'', ''Field1'')]"
    and "snd (Apply gorm2 ?ins (traced ?m) ([], [])) =
      [''other Field1'', ''preload Field3'', ''preload Field1'']"
    by simp_all
  then have "Apply gorm2 ?ins (traced ?m) ([], []) =
      ([(''preload=true'', ''Field1''), (''preload=true'', ''Field3''),
       (''otherOption=value'', ''Field1'')],
      [''other Field1'', ''preload Field3'', ''preload Field1''])"
    by (simp add: prod_eq_iff)
  with d show ?thesis by blast
qed

section \<open>Field names of the nested index\<close>

lemma getNested_fields_names:
  assumes "\<forall>E \<in> set fs. \<forall>T'. nestedType U T E = Some T' \<longrightarrow>
             (\<exists>r. recurse (interface_of T') (pfx @ Name E @ sep) = Some (Inr r) \<and>
                  (\<forall>i. namesOf r i = S E i))"
  shows "\<exists>r. getNested_fields recurse U t T pfx sep fs tags = Some (Inr r) \<and>
           (\<forall>i. namesOf r i =
              namesOf tags i \<union>
              (\<Union>E \<in> set fs. (if i \<in> dom (GetFromField t E) then {pfx @ Name E} else {}) \<union>
                 (case nestedType U T E of None \<Rightarrow> {} | Some T' \<Rightarrow> S E i)))"
  using assms
proof (induction fs arbitrary: tags)
  case Nil
  then show ?case by simp
next
  case (Cons E fs)
  let ?tags1 = "concat_tags tags (GetFromField t E) pfx"
  have own: "namesOf ?tags1 i
      = namesOf tags i \<union> (if i \<in> dom (GetFromField t E) then {pfx @ Name E} else {})" for i
    by (simp add: namesOf_concat_tags namesOf_GetFromField)
  from Cons.prems
  have rest: "\<forall>E \<in> set fs. \<forall>T'. nestedType U T E = Some T' \<longrightarrow>
             (\<exists>r. recurse (interface_of T') (pfx @ Name E @ sep) = Some (Inr r) \<and>
                  (\<forall>i. namesOf r i = S E i))"
    by simp
  show ?case
  proof (cases "nestedType U T E")
    case None
    from Cons.IH [OF rest, of ?tags1] obtain r
      where r: "getNested_fields recurse U t T pfx sep fs ?tags1 = Some (Inr r)"
        and n: "\<forall>i. namesOf r i = namesOf ?tags1 i \<union>
              (\<Union>E \<in> set fs. (if i \<in> dom (GetFromField t E) then {pfx @ Name E} else {}) \<union>
                 (case nestedType U T E of None \<Rightarrow> {} | Some T' \<Rightarrow> S E i))"
      by blast
    from r None have "getNested_fields recurse U t T pfx sep (E # fs) tags = Some (Inr r)"
      by (simp add: getNested_fields_Cons del: getNested_fields.simps)
    moreover from n None have "\<forall>i. namesOf r i = namesOf tags i \<union>
              (\<Union>E \<in> set (E # fs). (if i \<in> dom (GetFromField t E) then {pfx @ Name E} else {}) \<union>
                 (case nestedType U T E of None \<Rightarrow> {} | Some T' \<Rightarrow> S E i))"
      by (auto simp: own)
    ultimately show ?thesis by blast
  next
    case (Some T')
    with Cons.prems obtain nested
      where rec: "recurse (interface_of T') (pfx @ Name E @ sep) = Some (Inr nested)"
        and nn: "\<forall>i. namesOf nested i = S E i"
      by auto
    let ?tags2 = "concat_tags ?tags1 nested []"
    have both: "namesOf ?tags2 i
      = namesOf tags i \<union> (if i \<in> dom (GetFromField t E) then {pfx @ Name E} else {}) \<union> S E i"
      for i
      using nn by (simp add: namesOf_concat_tags [of ?tags1] own)
    from Cons.IH [OF rest, of ?tags2] obtain r
      where r: "getNested_fields recurse U t T pfx sep fs ?tags2 = Some (Inr r)"
        and n: "\<forall>i. namesOf r i = namesOf ?tags2 i \<union>
              (\<Union>E \<in> set fs. (if i \<in> dom (GetFromField t E) then {pfx @ Name E} else {}) \<union>
                 (case nestedType U T E of None \<Rightarrow> {} | Some T' \<Rightarrow> S E i))"
      by blast
    from r Some rec have "getNested_fields recurse U t T pfx sep (E # fs) tags = Some (Inr r)"
      by (simp add: getNested_fields_Cons del: getNested_fields.simps)
    moreover from n Some have "\<forall>i. namesOf r i = namesOf tags i \<union>
              (\<Union>E \<in> set (E # fs). (if i \<in> dom (GetFromField t E) then {pfx @ Name E} else {}) \<union>
                 (case nestedType U T E of None \<Rightarrow> {} | Some T' \<Rightarrow> S E i))"
      by (auto simp: both)
    ultimately show ?thesis by blast
  qed
qed

lemma fullPath_Nil: "fullPath sep [] F = Name F"
  by (simp add: fullPath_def)

lemma fullPath_Cons: "fullPath sep (E # Es) F = Name E @ sep @ fullPath sep Es F"
  by (simp add: fullPath_def)

lemma pathNames_unfold:
  "{pfx @ fullPath sep Es F | Es F. fieldPath U T Es F \<and> i \<in> dom (GetFromField t F)} =
     (\<Union>E \<in> set (Fields (U T)).
        (if i \<in> dom (GetFromField t E) then {pfx @ Name E} else {}) \<union>
        (case nestedType U T E of
           None \<Rightarrow> {}
         | Some T' \<Rightarrow> {(pfx @ Name E @ sep) @ fullPath sep Es F | Es F.
                        fieldPath U T' Es F \<and> i \<in> dom (GetFromField t F)}))"
  (is "?L = ?R")
proof (intro set_eqI iffI)
  fix x
  assume "x \<in> ?L"
  then obtain Es F where x: "x = pfx @ fullPath sep Es F" and p: "fieldPath U T Es F"
    and d: "i \<in> dom (GetFromField t F)"
    by blast
  show "x \<in> ?R"
  proof (cases Es)
    case Nil
    with x p d show ?thesis by (auto simp: fullPath_Nil)
  next
    case (Cons E Es')
    with p obtain T' where E: "E \<in> set (Fields (U T))" and T': "nestedType U T E = Some T'"
      and p': "fieldPath U T' Es' F"
      by (auto split: option.splits)
    from x Cons have "x = (pfx @ Name E @ sep) @ fullPath sep Es' F"
      by (simp add: fullPath_Cons)
    with p' d have "x \<in> {(pfx @ Name E @ sep) @ fullPath sep Es F | Es F.
                        fieldPath U T' Es F \<and> i \<in> dom (GetFromField t F)}"
      by blast
    with E T' show ?thesis by force
  qed
next
  fix x
  assume "x \<in> ?R"
  then obtain E where E: "E \<in> set (Fields (U T))"
    and x: "x \<in> (if i \<in> dom (GetFromField t E) then {pfx @ Name E} else {}) \<union>
        (case nestedType U T E of
           None \<Rightarrow> {}
         | Some T' \<Rightarrow> {(pfx @ Name E @ sep) @ fullPath sep Es F | Es F.
                        fieldPath U T' Es F \<and> i \<in> dom (GetFromField t F)})"
    by blast
  from x show "x \<in> ?L"
  proof
    assume "x \<in> (if i \<in> dom (GetFromField t E) then {pfx @ Name E} else {})"
    then have "i \<in> dom (GetFromField t E)" and "x = pfx @ fullPath sep [] E"
      by (auto simp: fullPath_Nil split: if_splits)
    moreover from E have "fieldPath U T [] E" by simp
    ultimately show ?thesis by blast
  next
    assume a: "x \<in> (case nestedType U T E of
           None \<Rightarrow> {}
         | Some T' \<Rightarrow> {(pfx @ Name E @ sep) @ fullPath sep Es F | Es F.
                        fieldPath U T' Es F \<and> i \<in> dom (GetFromField t F)})"
    then obtain T' where T': "nestedType U T E = Some T'" by (cases "nestedType U T E") auto
    with a obtain Es F where "x = (pfx @ Name E @ sep) @ fullPath sep Es F"
      and p: "fieldPath U T' Es F" and d: "i \<in> dom (GetFromField t F)"
      by auto
    then have "x = pfx @ fullPath sep (E # Es) F" by (simp add: fullPath_Cons)
    moreover from E T' p have "fieldPath U T (E # Es) F" by simp
    ultimately show ?thesis using d by blast
  qed
qed

lemma nestedType_Struct: "nestedType U T E = Some T' \<Longrightarrow> Kind (U T') = Struct"
  by (auto simp: nestedType_def split: sum.splits if_splits)

lemma getNested_names:
  assumes "nestingWithin d U T" and "Kind (U T) = Struct"
  shows "\<exists>r. getNested d U t (interface_of T) pfx sep = Some (Inr r) \<and>
           (\<forall>i. namesOf r i =
              {pfx @ fullPath sep Es F | Es F. fieldPath U T Es F \<and> i \<in> dom (GetFromField t F)})"
  using assms
proof (induction d arbitrary: T pfx)
  case 0
  then show ?case by simp
next
  case (Suc d)
  let ?S = "\<lambda>E i. case nestedType U T E of
                    None \<Rightarrow> {}
                  | Some T' \<Rightarrow> {(pfx @ Name E @ sep) @ fullPath sep Es F | Es F.
                        fieldPath U T' Es F \<and> i \<in> dom (GetFromField t F)}"
  have rec: "\<forall>E \<in> set (Fields (U T)). \<forall>T'. nestedType U T E = Some T' \<longrightarrow>
             (\<exists>r. getNested d U t (interface_of T') (pfx @ Name E @ sep) sep = Some (Inr r) \<and>
                  (\<forall>i. namesOf r i = ?S E i))"
  proof (intro ballI allI impI)
    fix E T'
    assume E: "E \<in> set (Fields (U T))" and T': "nestedType U T E = Some T'"
    with Suc.prems(1) have "nestingWithin d U T'" by fastforce
    moreover from T' have "Kind (U T') = Struct" by (rule nestedType_Struct)
    ultimately
    have "\<exists>r. getNested d U t (interface_of T') (pfx @ Name E @ sep) sep = Some (Inr r) \<and>
           (\<forall>i. namesOf r i =
              {(pfx @ Name E @ sep) @ fullPath sep Es F | Es F.
                 fieldPath U T' Es F \<and> i \<in> dom (GetFromField t F)})"
      by (rule Suc.IH)
    with T' show "\<exists>r. getNested d U t (interface_of T') (pfx @ Name E @ sep) sep = Some (Inr r) \<and>
                  (\<forall>i. namesOf r i = ?S E i)"
      by simp
  qed
  from getNested_fields_names
    [of "Fields (U T)" U T "\<lambda>m p. getNested d U t m p sep" pfx sep ?S t Map.empty, OF rec]
  obtain r where r: "getNested_fields (\<lambda>m p. getNested d U t m p sep) U t T pfx sep
                       (Fields (U T)) Map.empty = Some (Inr r)"
    and n: "\<forall>i. namesOf r i =
              (\<Union>E \<in> set (Fields (U T)).
                 (if i \<in> dom (GetFromField t E) then {pfx @ Name E} else {}) \<union>
                 (case nestedType U T E of None \<Rightarrow> {} | Some T' \<Rightarrow> ?S E i))"
    by (auto simp: namesOf_empty)
  from Suc.prems(2) have "typeToElem U (TypeOf (interface_of T)) = Inr T"
    by (simp add: typeToElem_Struct)
  from getNested_Suc [OF this Suc.prems(2)] r
  have g: "getNested (Suc d) U t (interface_of T) pfx sep = Some (Inr r)" by simp
  have "namesOf r i =
     {pfx @ fullPath sep Es F | Es F. fieldPath U T Es F \<and> i \<in> dom (GetFromField t F)}" for i
  proof -
    have "(case nestedType U T E of None \<Rightarrow> {} | Some T' \<Rightarrow> ?S E i) = ?S E i" for E
      by (cases "nestedType U T E") simp_all
    with n have "namesOf r i = (\<Union>E \<in> set (Fields (U T)).
                 (if i \<in> dom (GetFromField t E) then {pfx @ Name E} else {}) \<union> ?S E i)"
      by simp
    then show ?thesis unfolding pathNames_unfold [of pfx sep U T i t] .
  qed
  with g show ?case by blast
qed

text \<open>
  Claim C1. For a model whose unwrapped type \<open>T\<close> is a struct with nesting less than \<open>d\<close> deep
  (an acyclic record type), \<^verbatim>\<open>GetNested\<close> returns an index when the stack has room for
  \<open>d\<close> calls, and the field names it lists under an instruction \<open>i\<close> are exactly the full
  paths \<^verbatim>\<open>F1+sep+...+Fn+sep+name\<close> of the fields that declare \<open>i\<close> and that the traversal
  reaches through the enclosing fields \<open>F1..Fn\<close>. The recursive \<^verbatim>\<open>getNested\<close> called with
  a prefix lists the same paths behind that prefix, which is how the path is built: the
  call for a nested field extends the prefix by the field's name and the separator.
\<close>

theorem GetNested_names_are_full_paths:
  assumes "typeToElem U (TypeOf model) = Inr T" and "Kind (U T) = Struct"
    and "nestingWithin d U T"
  shows "(\<exists>tags. GetNested d U t model sep = Some (Inr tags) \<and>
            (\<forall>i. namesOf tags i =
               {fullPath sep Es F | Es F. fieldPath U T Es F \<and> i \<in> dom (GetFromField t F)})) \<and>
         (\<exists>tags. getNested d U t model pfx sep = Some (Inr tags) \<and>
            (\<forall>i. namesOf tags i =
               {pfx @ fullPath sep Es F | Es F. fieldPath U T Es F \<and> i \<in> dom (GetFromField t F)}))"
proof -
  from assms(3) obtain d' where d: "d = Suc d'" by (cases d) auto
  from assms(2) have "typeToElem U (TypeOf (interface_of T)) = Inr T"
    by (simp add: typeToElem_Struct)
  from getNested_Suc [OF this assms(2)] getNested_Suc [OF assms(1,2)]
  have same: "getNested d U t model p sep = getNested d U t (interface_of T) p sep" for p
    unfolding d by simp
  from getNested_names [OF assms(3,2), of t pfx sep]
  have general: "\<exists>tags. getNested d U t model pfx sep = Some (Inr tags) \<and>
            (\<forall>i. namesOf tags i =
               {pfx @ fullPath sep Es F | Es F. fieldPath U T Es F \<and> i \<in> dom (GetFromField t F)})"
    by (simp only: same)
  from getNested_names [OF assms(3,2), of t "[]" sep]
  have "\<exists>tags. GetNested d U t model sep = Some (Inr tags) \<and>
            (\<forall>i. namesOf tags i =
               {fullPath sep Es F | Es F. fieldPath U T Es F \<and> i \<in> dom (GetFromField t F)})"
    by (simp add: GetNested_def same)
  with general show ?thesis by blast
qed

theorem GetNested_names_are_full_paths_witness:
  "typeToElem exampleTypes (TypeOf (interface_of 4)) = Inr 2 \<and> Kind (exampleTypes 2) = Struct \<and>
   nestingWithin 2 exampleTypes 2 \<and>
   fieldPath exampleTypes 2 [field ''Field3'' 3 ''preload=true'']
     (field ''Subfield1'' 0 ''preload=true;otherOption=value2'') \<and>
   (\<exists>tags. GetNested 2 exampleTypes gorm2 (interface_of 4) ''.'' = Some (Inr tags) \<and>
      tags ''otherOption=value2'' = Some [''Field3.Subfield1''] \<and>
      ''Field3.Subfield1'' \<in>
        {fullPath ''.'' Es F | Es F. fieldPath exampleTypes 2 Es F \<and>
           ''otherOption=value2'' \<in> dom (GetFromField gorm2 F)} \<and>
      {fullPath ''.'' Es F | Es F. fieldPath exampleTypes 2 Es F \<and>
           ''otherOption=value2'' \<in> dom (GetFromField gorm2 F)} = {''Field3.Subfield1''})"
proof -
  have ty: "typeToElem exampleTypes (TypeOf (interface_of 4)) = Inr 2" by code_simp
  have k: "Kind (exampleTypes 2) = Struct" by code_simp
  have nest: "nestingWithin 2 exampleTypes 2" by code_simp
  have path: "fieldPath exampleTypes 2 [field ''Field3'' 3 ''preload=true'']
     (field ''Subfield1'' 0 ''preload=true;otherOption=value2'')"
    by code_simp
  have v: "case GetNested 2 exampleTypes gorm2 (interface_of 4) ''.'' of
          Some (Inr tags) \<Rightarrow> tags ''otherOption=value2'' = Some [''Field3.Subfield1'']
        | _ \<Rightarrow> False"
    by code_simp
  from GetNested_names_are_full_paths [OF ty k nest, of gorm2 "''.''" "[]", THEN conjunct1]
  obtain tags where tags: "GetNested 2 exampleTypes gorm2 (interface_of 4) ''.'' = Some (Inr tags)"
    and names: "\<forall>i. namesOf tags i =
       {fullPath ''.'' Es F | Es F. fieldPath exampleTypes 2 Es F \<and> i \<in> dom (GetFromField gorm2 F)}"
    by (elim exE conjE)
  from v tags have val: "tags ''otherOption=value2'' = Some [''Field3.Subfield1'']" by simp
  then have "namesOf tags ''otherOption=value2'' = {''Field3.Subfield1''}"
    by (simp add: namesOf_def)
  with names have "{fullPath ''.'' Es F | Es F. fieldPath exampleTypes 2 Es F \<and>
           ''otherOption=value2'' \<in> dom (GetFromField gorm2 F)} = {''Field3.Subfield1''}"
    by (simp only:)
  moreover from this have "''Field3.Subfield1'' \<in>
        {fullPath ''.'' Es F | Es F. fieldPath exampleTypes 2 Es F \<and>
           ''otherOption=value2'' \<in> dom (GetFromField gorm2 F)}"
    by (simp only: singletonI)
  ultimately show ?thesis using ty k nest path tags val by blast
qed

end
